theory Spec2Isabelle
  imports Main "HOL-Library.Word" "HOL-Library.Signed_Division"
begin

section \<open>Data model of \<open>src/main.c\<close>\<close>

text \<open>
  The calculator core of \<open>main.c\<close>: \<open>tokenize\<close>, the four recursive-descent
  sub-parsers behind \<open>parse\<close>, and \<open>calculate\<close>.

  A C string is modelled by the list of its characters before the terminating NUL, so a
  well-formed string holds no NUL character. All buffers of the program have
  \<open>MSG_SIZE\<close> bytes, terminator included.
\<close>

definition MSG_SIZE :: nat where
  "MSG_SIZE = 32"

definition VALID_TOKENS :: string where
  "VALID_TOKENS = ''+-*/0123456789()''"

definition NUL :: char where
  "NUL = CHR 0x00"

text \<open>
  C \<open>int\<close> on the 32-bit target, in two's complement. Signed overflow is modelled as
  the wrap-around the target's arithmetic instructions perform.
\<close>

type_synonym c_int = "32 word"

text \<open>
  The ways a run of the core can go wrong. \<open>InvalidInput\<close> is the one failure the
  program detects: \<open>tokenize\<close> returns \<open>NULL\<close> and \<open>main\<close> prints
  \<open>invalid input\<close>. \<open>Undefined\<close> marks an operation that C leaves undefined and
  that the program executes unchecked: a write past the end of a \<open>MSG_SIZE\<close> buffer, a
  read through a null tree pointer, an integer division by zero. The run has no defined
  result from there on (on the target, the division faults), and nothing is reported.
\<close>

datatype undefined_behaviour = BufferOverflow | NullDereference | DivisionByZero

datatype error = InvalidInput | Undefined undefined_behaviour

text \<open>\<open>struct parserTok\<close>.\<close>

record parserTok =
  tokens :: string
  numTokens :: nat
  index :: nat

text \<open>
  \<open>struct expressionTree *\<close>: the null pointer, or a node with its four fields
  \<open>type\<close>, \<open>val\<close>, \<open>left\<close>, \<open>right\<close>.
\<close>

datatype expressionTree =
  NULL
  | Node char c_int expressionTree expressionTree

text \<open>
  \<open>strchr(s, c) != NULL\<close>: the character occurs in the string, where the terminator
  counts as part of the string.
\<close>

definition strchr :: "string \<Rightarrow> char \<Rightarrow> bool" where
  "strchr s c \<longleftrightarrow> c \<in> set s \<or> c = NUL"

section \<open>Tokenizer\<close>

text \<open>
  The \<open>for\<close> loop of \<open>tokenize\<close>, over the characters still to scan, with the
  contents \<open>tokens[0..index)\<close> of the output buffer as accumulator. The buffer is
  \<open>malloc(MSG_SIZE)\<close>: a write at \<open>index \<ge> MSG_SIZE\<close>, also that of the final
  terminator, is past its end.
\<close>

fun tokenize_loop :: "string \<Rightarrow> string \<Rightarrow> error + string" where
  "tokenize_loop [] toks =
     (if length toks < MSG_SIZE then Inr toks else Inl (Undefined BufferOverflow))"
| "tokenize_loop (c # cs) toks =
     (if strchr VALID_TOKENS c then
        (if length toks < MSG_SIZE then tokenize_loop cs (toks @ [c])
         else Inl (Undefined BufferOverflow))
      else if c = CHR '' '' \<or> c = CHR ''='' then tokenize_loop cs toks
      else Inl InvalidInput)"

definition tokenize :: "string \<Rightarrow> error + string" where
  "tokenize str = tokenize_loop str []"

section \<open>Parser\<close>

text \<open>
  \<open>parser->tokens[parser->index]\<close>. At \<open>index = numTokens\<close> this reads the
  terminator of the token string. The sub-parsers never move the cursor beyond that
  position (see the cursor invariant below), so the last case is only there to make
  the function total.
\<close>

definition tok :: "parserTok \<Rightarrow> char" where
  "tok p = (if index p < length (tokens p) then tokens p ! index p else NUL)"

definition advance :: "parserTok \<Rightarrow> parserTok" where
  "advance p = p\<lparr>index := index p + 1\<rparr>"

text \<open>
  \<open>createExpressionTree\<close> allocates a node and stores its four arguments. (In the
  source the assignment of the right child is written \<open>sexpression->right = right\<close>;
  it is read here as the assignment to \<open>expression->right\<close>.)
\<close>

definition createExpressionTree ::
  "char \<Rightarrow> c_int \<Rightarrow> expressionTree \<Rightarrow> expressionTree \<Rightarrow> expressionTree" where
  "createExpressionTree ty v l r = Node ty v l r"

text \<open>
  \<open>atoi\<close> of the C library, on the strings \<open>parseNumber\<close> hands to it (no leading
  white space, no sign): the value of the leading run of decimal digits, 0 when there is
  none. The value is accumulated in a C \<open>int\<close>; a run too long for an \<open>int\<close> wraps
  around here.
\<close>

definition isdigit :: "char \<Rightarrow> bool" where
  "isdigit c \<longleftrightarrow> c \<in> set ''0123456789''"

definition digit_val :: "char \<Rightarrow> c_int" where
  "digit_val c = of_nat (of_char c - 48)"

definition atoi :: "string \<Rightarrow> c_int" where
  "atoi s = foldl (\<lambda>a c. a * 10 + digit_val c) 0 (takeWhile isdigit s)"

text \<open>
  The \<open>while\<close> loop of \<open>parseNumber\<close>; \<open>number\<close> is \<open>number[0..digits)\<close>. The
  condition is evaluated left to right, as \<open>&&\<close> does.
\<close>

function parseNumber_loop :: "parserTok \<Rightarrow> string \<Rightarrow> parserTok \<times> string" where
  "parseNumber_loop p number =
     (if strchr ''0123456789'' (tok p) \<and> length number < MSG_SIZE \<and> index p < numTokens p
      then parseNumber_loop (advance p) (number @ [tok p])
      else (p, number))"
  by pat_completeness auto
termination
  by (relation "measure (\<lambda>(p, number). numTokens p - index p)") (auto simp: advance_def)

declare parseNumber_loop.simps [simp del]

definition parseNumber :: "parserTok \<Rightarrow> expressionTree \<times> parserTok" where
  "parseNumber p =
     (case parseNumber_loop p [] of
        (p', number) \<Rightarrow> (createExpressionTree (CHR ''n'') (atoi number) NULL NULL, p'))"

text \<open>
  The mutually recursive sub-parsers, each returning the tree together with the cursor
  it leaves behind. The recursion is not structural, so every function takes a bound on
  the depth of the calls it may still make and returns \<open>None\<close> when that bound is used
  up; \<open>parsers_total\<close> below shows that three calls for each token not yet consumed,
  plus three, are always enough.
  The two \<open>while\<close> loops are the functions \<open>parseAddition_loop\<close> and
  \<open>parseMultiplication_loop\<close>, with the local variable \<open>expression\<close> as argument.
\<close>

fun parseAddition :: "nat \<Rightarrow> parserTok \<Rightarrow> (expressionTree \<times> parserTok) option"
  and parseAddition_loop ::
    "nat \<Rightarrow> parserTok \<Rightarrow> expressionTree \<Rightarrow> (expressionTree \<times> parserTok) option"
  and parseMultiplication :: "nat \<Rightarrow> parserTok \<Rightarrow> (expressionTree \<times> parserTok) option"
  and parseMultiplication_loop ::
    "nat \<Rightarrow> parserTok \<Rightarrow> expressionTree \<Rightarrow> (expressionTree \<times> parserTok) option"
  and parseParenthesis :: "nat \<Rightarrow> parserTok \<Rightarrow> (expressionTree \<times> parserTok) option"
where
  "parseAddition 0 p = None"
| "parseAddition (Suc n) p =
     (case parseMultiplication n p of
        None \<Rightarrow> None
      | Some (expression, p') \<Rightarrow> parseAddition_loop n p' expression)"
| "parseAddition_loop 0 p expression = None"
| "parseAddition_loop (Suc n) p expression =
     (if index p < numTokens p \<and> (tok p = CHR ''+'' \<or> tok p = CHR ''-'') then
        (case parseMultiplication n (advance p) of
           None \<Rightarrow> None
         | Some (rightExpression, p') \<Rightarrow>
             parseAddition_loop n p'
               (createExpressionTree (tok p) 0 expression rightExpression))
      else Some (expression, p))"
| "parseMultiplication 0 p = None"
| "parseMultiplication (Suc n) p =
     (case parseParenthesis n p of
        None \<Rightarrow> None
      | Some (expression, p') \<Rightarrow> parseMultiplication_loop n p' expression)"
| "parseMultiplication_loop 0 p expression = None"
| "parseMultiplication_loop (Suc n) p expression =
     (if index p < numTokens p \<and> (tok p = CHR ''*'' \<or> tok p = CHR ''/'') then
        (case parseParenthesis n (advance p) of
           None \<Rightarrow> None
         | Some (rightExpression, p') \<Rightarrow>
             parseMultiplication_loop n p'
               (createExpressionTree (tok p) 0 expression rightExpression))
      else Some (expression, p))"
| "parseParenthesis 0 p = None"
| "parseParenthesis (Suc n) p =
     (if tok p = CHR ''('' then
        (case parseAddition n (advance p) of
           None \<Rightarrow> None
         | Some (expression, p') \<Rightarrow>
             Some (expression, if tok p' = CHR '')'' then advance p' else p'))
      else Some (parseNumber p))"

text \<open>\<open>parse\<close>: a fresh cursor at position 0, then \<open>parseAddition\<close>.\<close>

definition new_parser :: "string \<Rightarrow> parserTok" where
  "new_parser toks = \<lparr>tokens = toks, numTokens = length toks, index = 0\<rparr>"

definition parse :: "string \<Rightarrow> expressionTree option" where
  "parse toks = map_option fst (parseAddition (3 * length toks + 3) (new_parser toks))"

section \<open>Evaluator\<close>

text \<open>
  C's \<open>/\<close> on \<open>int\<close> for a non-zero divisor: the quotient truncated towards zero
  (and wrapped around for the one quotient that does not fit, \<open>INT_MIN / -1\<close>).
\<close>

definition c_div :: "c_int \<Rightarrow> c_int \<Rightarrow> c_int" where
  "c_div a b = word_of_int (sint a sdiv sint b)"

text \<open>
  \<open>calculate\<close>. The expression \<open>left / right ? right : 0\<close> is
  \<open>(left / right) ? right : 0\<close>: the division is carried out first, and its quotient
  only selects between \<open>right\<close> and \<open>0\<close>.
\<close>

fun calculate :: "expressionTree \<Rightarrow> error + c_int" where
  "calculate NULL = Inl (Undefined NullDereference)"
| "calculate (Node ty v l r) =
     (if ty = CHR ''n'' then Inr v
      else
        (case calculate l of
           Inl e \<Rightarrow> Inl e
         | Inr left \<Rightarrow>
             (case calculate r of
                Inl e \<Rightarrow> Inl e
              | Inr right \<Rightarrow>
                  if ty = CHR ''+'' then Inr (left + right)
                  else if ty = CHR ''-'' then Inr (left - right)
                  else if ty = CHR ''*'' then Inr (left * right)
                  else if ty = CHR ''/'' then
                    (if right = 0 then Inl (Undefined DivisionByZero)
                     else Inr (if c_div left right \<noteq> 0 then right else 0))
                  else Inr 0)))"

text \<open>
  The body of the read loop in \<open>main\<close> for one input line other than \<open>exit\<close>:
  tokenize, and unless that gave \<open>NULL\<close>, parse and calculate. The result is
  \<open>None\<close> only if the parser's call-depth bound is used up, which never happens.
\<close>

definition main_line :: "string \<Rightarrow> (error + c_int) option" where
  "main_line str =
     (case tokenize str of
        Inl e \<Rightarrow> Some (Inl e)
      | Inr toks \<Rightarrow> map_option calculate (parse toks))"

section \<open>Predicates used in the statements\<close>

text \<open>
  An input line as \<open>main\<close> hands it to \<open>tokenize\<close>: a C string held in the
  \<open>MSG_SIZE\<close> buffer \<open>tx_buf\<close>, so at most \<open>MSG_SIZE - 1\<close> characters.
\<close>

definition is_line :: "string \<Rightarrow> bool" where
  "is_line s \<longleftrightarrow> NUL \<notin> set s \<and> length s < MSG_SIZE"

text \<open>The characters \<open>tokenize\<close> accepts: the tokens, the space and the equal sign.\<close>

definition input_alphabet :: "char set" where
  "input_alphabet = set ''0123456789+-*/() =''"

definition is_token :: "char \<Rightarrow> bool" where
  "is_token c \<longleftrightarrow> c \<in> set VALID_TOKENS"

text \<open>
  A cursor as \<open>parse\<close> sets it up and as the sub-parsers keep it: \<open>numTokens\<close> is the
  length of the token string and the index is at most that.
\<close>

definition wf_parser :: "parserTok \<Rightarrow> bool" where
  "wf_parser p \<longleftrightarrow> numTokens p = length (tokens p) \<and> index p \<le> numTokens p"

text \<open>
  \<open>cursor_le p p'\<close>: \<open>p'\<close> is a cursor over the same token string as \<open>p\<close>, at the
  same or a later position, and not beyond the end.
\<close>

definition cursor_le :: "parserTok \<Rightarrow> parserTok \<Rightarrow> bool" where
  "cursor_le p p' \<longleftrightarrow>
     tokens p' = tokens p \<and> numTokens p' = numTokens p \<and>
     index p \<le> index p' \<and> index p' \<le> numTokens p'"

definition remaining :: "parserTok \<Rightarrow> nat" where
  "remaining p = numTokens p - index p"

text \<open>
  The trees of the data model: a number node has type \<open>n\<close> and no children, an
  operator node has one of the four operators as type and two non-null children.
\<close>

definition is_operator :: "char \<Rightarrow> bool" where
  "is_operator c \<longleftrightarrow> c = CHR ''+'' \<or> c = CHR ''-'' \<or> c = CHR ''*'' \<or> c = CHR ''/''"

fun wf_tree :: "expressionTree \<Rightarrow> bool" where
  "wf_tree NULL = False"
| "wf_tree (Node ty v l r) =
     (if ty = CHR ''n'' then l = NULL \<and> r = NULL
      else is_operator ty \<and> wf_tree l \<and> wf_tree r)"

text \<open>Some division node of the tree has a denominator that evaluates to zero.\<close>

fun zero_denominator :: "expressionTree \<Rightarrow> bool" where
  "zero_denominator NULL = False"
| "zero_denominator (Node ty v l r) =
     (ty \<noteq> CHR ''n'' \<and>
      (zero_denominator l \<or> zero_denominator r \<or>
       (ty = CHR ''/'' \<and> calculate r = Inr 0)))"

text \<open>
  The shape of a left-associative chain: starting from a first operand, each further
  pair of an operator and an operand becomes an operator node with the chain so far as
  left child.
\<close>

definition fold_terms ::
  "expressionTree \<Rightarrow> (char \<times> expressionTree) list \<Rightarrow> expressionTree" where
  "fold_terms e ts = foldl (\<lambda>acc (op, r). Node op 0 acc r) e ts"

section \<open>The sub-parsers with the history of the cursor\<close>

text \<open>
  The same sub-parsers, line by line, with one addition: each call also returns the
  list of the values it assigned to \<open>parser->index\<close>, in the order of the
  assignments (every \<open>parser->index++\<close> of the source appends the new value). They
  serve to state what happens to the cursor during a call, not only at its end.
\<close>

function parseNumber_loop_trace ::
  "parserTok \<Rightarrow> string \<Rightarrow> parserTok \<times> string \<times> nat list" where
  "parseNumber_loop_trace p number =
     (if strchr ''0123456789'' (tok p) \<and> length number < MSG_SIZE \<and> index p < numTokens p
      then (case parseNumber_loop_trace (advance p) (number @ [tok p]) of
              (p', number', tr) \<Rightarrow> (p', number', index (advance p) # tr))
      else (p, number, []))"
  by pat_completeness auto
termination
  by (relation "measure (\<lambda>(p, number). numTokens p - index p)") (auto simp: advance_def)

declare parseNumber_loop_trace.simps [simp del]

definition parseNumber_trace :: "parserTok \<Rightarrow> expressionTree \<times> parserTok \<times> nat list" where
  "parseNumber_trace p =
     (case parseNumber_loop_trace p [] of
        (p', number, tr) \<Rightarrow>
          (createExpressionTree (CHR ''n'') (atoi number) NULL NULL, p', tr))"

fun parseAddition_trace ::
    "nat \<Rightarrow> parserTok \<Rightarrow> (expressionTree \<times> parserTok \<times> nat list) option"
  and parseAddition_loop_trace ::
    "nat \<Rightarrow> parserTok \<Rightarrow> expressionTree \<Rightarrow> (expressionTree \<times> parserTok \<times> nat list) option"
  and parseMultiplication_trace ::
    "nat \<Rightarrow> parserTok \<Rightarrow> (expressionTree \<times> parserTok \<times> nat list) option"
  and parseMultiplication_loop_trace ::
    "nat \<Rightarrow> parserTok \<Rightarrow> expressionTree \<Rightarrow> (expressionTree \<times> parserTok \<times> nat list) option"
  and parseParenthesis_trace ::
    "nat \<Rightarrow> parserTok \<Rightarrow> (expressionTree \<times> parserTok \<times> nat list) option"
where
  "parseAddition_trace 0 p = None"
| "parseAddition_trace (Suc n) p =
     (case parseMultiplication_trace n p of
        None \<Rightarrow> None
      | Some (expression, p1, tr1) \<Rightarrow>
          (case parseAddition_loop_trace n p1 expression of
             None \<Rightarrow> None
           | Some (e, p2, tr2) \<Rightarrow> Some (e, p2, tr1 @ tr2)))"
| "parseAddition_loop_trace 0 p expression = None"
| "parseAddition_loop_trace (Suc n) p expression =
     (if index p < numTokens p \<and> (tok p = CHR ''+'' \<or> tok p = CHR ''-'') then
        (case parseMultiplication_trace n (advance p) of
           None \<Rightarrow> None
         | Some (rightExpression, p1, tr1) \<Rightarrow>
             (case parseAddition_loop_trace n p1
                     (createExpressionTree (tok p) 0 expression rightExpression) of
                None \<Rightarrow> None
              | Some (e, p2, tr2) \<Rightarrow> Some (e, p2, index (advance p) # tr1 @ tr2)))
      else Some (expression, p, []))"
| "parseMultiplication_trace 0 p = None"
| "parseMultiplication_trace (Suc n) p =
     (case parseParenthesis_trace n p of
        None \<Rightarrow> None
      | Some (expression, p1, tr1) \<Rightarrow>
          (case parseMultiplication_loop_trace n p1 expression of
             None \<Rightarrow> None
           | Some (e, p2, tr2) \<Rightarrow> Some (e, p2, tr1 @ tr2)))"
| "parseMultiplication_loop_trace 0 p expression = None"
| "parseMultiplication_loop_trace (Suc n) p expression =
     (if index p < numTokens p \<and> (tok p = CHR ''*'' \<or> tok p = CHR ''/'') then
        (case parseParenthesis_trace n (advance p) of
           None \<Rightarrow> None
         | Some (rightExpression, p1, tr1) \<Rightarrow>
             (case parseMultiplication_loop_trace n p1
                     (createExpressionTree (tok p) 0 expression rightExpression) of
                None \<Rightarrow> None
              | Some (e, p2, tr2) \<Rightarrow> Some (e, p2, index (advance p) # tr1 @ tr2)))
      else Some (expression, p, []))"
| "parseParenthesis_trace 0 p = None"
| "parseParenthesis_trace (Suc n) p =
     (if tok p = CHR ''('' then
        (case parseAddition_trace n (advance p) of
           None \<Rightarrow> None
         | Some (expression, p1, tr1) \<Rightarrow>
             (if tok p1 = CHR '')''
              then Some (expression, advance p1, index (advance p) # tr1 @ [index (advance p1)])
              else Some (expression, p1, index (advance p) # tr1)))
      else Some (parseNumber_trace p))"

definition untrace :: "'a \<times> 'b \<times> nat list \<Rightarrow> 'a \<times> 'b" where
  "untrace r = (fst r, fst (snd r))"

text \<open>
  \<open>increments p tr p'\<close>: the cursor \<open>p'\<close> is over the same token string as \<open>p\<close>,
  and the assignments \<open>tr\<close> that led from \<open>p\<close> to \<open>p'\<close> are exactly the steps
  \<open>index p + 1\<close>, \<open>index p + 2\<close>, ..., \<open>index p'\<close>, none beyond the end.
\<close>

definition increments :: "parserTok \<Rightarrow> nat list \<Rightarrow> parserTok \<Rightarrow> bool" where
  "increments p tr p' \<longleftrightarrow>
     tr = [Suc (index p)..<Suc (index p')] \<and> tokens p' = tokens p \<and>
     numTokens p' = numTokens p \<and> index p \<le> index p' \<and> index p' \<le> numTokens p'"

section \<open>Well-formed expressions without parentheses, and their trees\<close>

text \<open>
  A cursor over the token string \<open>pre @ s\<close> that stands at the first token of \<open>s\<close>.
\<close>

definition at_cursor :: "string \<Rightarrow> string \<Rightarrow> parserTok" where
  "at_cursor pre s = \<lparr>tokens = pre @ s, numTokens = length (pre @ s), index = length pre\<rparr>"

text \<open>
  A number literal: a non-empty run of digits that fits the digit buffer of
  \<open>parseNumber\<close>; and the node \<open>parseNumber\<close> makes of it.
\<close>

definition is_number :: "string \<Rightarrow> bool" where
  "is_number d \<longleftrightarrow> d \<noteq> [] \<and> (\<forall>c \<in> set d. isdigit c) \<and> length d < MSG_SIZE"

definition number_node :: "string \<Rightarrow> expressionTree" where
  "number_node d = Node (CHR ''n'') (atoi d) NULL NULL"

text \<open>
  A chain \<open>d op\<^sub>1 d\<^sub>1 ... op\<^sub>k d\<^sub>k\<close> is given by its first number and the list of
  the pairs \<open>(op\<^sub>i, d\<^sub>i)\<close>; \<open>render_ops\<close> writes the pairs as tokens. A product is a
  chain with \<open>*\<close> and \<open>/\<close>, and \<open>tree_product\<close> is its left-associative tree. A
  sum of products is a first product and a list of \<open>(op, product)\<close> with \<open>+\<close> and
  \<open>-\<close>, written as tokens by \<open>render_terms\<close>.
\<close>

fun render_ops :: "(char \<times> string) list \<Rightarrow> string" where
  "render_ops [] = []"
| "render_ops ((op, d) # ods) = op # d @ render_ops ods"

definition tree_product :: "string \<Rightarrow> (char \<times> string) list \<Rightarrow> expressionTree" where
  "tree_product d ods = fold_terms (number_node d) (map (\<lambda>(op, d). (op, number_node d)) ods)"

fun render_terms :: "(char \<times> string \<times> (char \<times> string) list) list \<Rightarrow> string" where
  "render_terms [] = []"
| "render_terms ((op, d, ods) # ts) = op # d @ render_ops ods @ render_terms ts"

definition is_product :: "string \<Rightarrow> (char \<times> string) list \<Rightarrow> bool" where
  "is_product d ods \<longleftrightarrow>
     is_number d \<and> (\<forall>(op, d') \<in> set ods. (op = CHR ''*'' \<or> op = CHR ''/'') \<and> is_number d')"

text \<open>
  What may follow a number, a product, a sum in the token string for it to end there:
  nothing, or a token that cannot continue it.
\<close>

definition ends_number :: "string \<Rightarrow> bool" where
  "ends_number post \<longleftrightarrow> post = [] \<or> (\<not> isdigit (hd post) \<and> hd post \<noteq> NUL)"

definition ends_product :: "string \<Rightarrow> bool" where
  "ends_product post \<longleftrightarrow>
     post = [] \<or>
     (hd post \<noteq> CHR ''*'' \<and> hd post \<noteq> CHR ''/'' \<and> \<not> isdigit (hd post) \<and> hd post \<noteq> NUL)"

definition ends_sum :: "string \<Rightarrow> bool" where
  "ends_sum post \<longleftrightarrow>
     post = [] \<or>
     (hd post \<noteq> CHR ''+'' \<and> hd post \<noteq> CHR ''-'' \<and> hd post \<noteq> CHR ''*'' \<and>
      hd post \<noteq> CHR ''/'' \<and> \<not> isdigit (hd post) \<and> hd post \<noteq> NUL)"

text \<open>A tree without any \<open>+\<close> or \<open>-\<close> node.\<close>

fun no_additive :: "expressionTree \<Rightarrow> bool" where
  "no_additive NULL = True"
| "no_additive (Node ty v l r) =
     (ty \<noteq> CHR ''+'' \<and> ty \<noteq> CHR ''-'' \<and> no_additive l \<and> no_additive r)"

text \<open>The loop conditions of \<open>parseAddition\<close> and \<open>parseMultiplication\<close>.\<close>

definition at_additive :: "parserTok \<Rightarrow> bool" where
  "at_additive p \<longleftrightarrow> index p < numTokens p \<and> (tok p = CHR ''+'' \<or> tok p = CHR ''-'')"

definition at_multiplicative :: "parserTok \<Rightarrow> bool" where
  "at_multiplicative p \<longleftrightarrow> index p < numTokens p \<and> (tok p = CHR ''*'' \<or> tok p = CHR ''/'')"

section \<open>Tokenizer: accepted alphabet and idempotence\<close>

lemma strchr_VALID_TOKENS: "strchr VALID_TOKENS c \<longleftrightarrow> is_token c \<or> c = NUL"
  by (simp add: strchr_def is_token_def)

lemma input_alphabet_iff:
  "c \<in> input_alphabet \<longleftrightarrow> is_token c \<or> c = CHR '' '' \<or> c = CHR ''=''"
  by (auto simp: input_alphabet_def is_token_def VALID_TOKENS_def)

text \<open>
  What a successful run returns: the characters that pass the \<open>strchr\<close> test, in
  their order, and fewer than \<open>MSG_SIZE\<close> of them.
\<close>

lemma tokenize_loop_Inr:
  "tokenize_loop s toks = Inr t \<Longrightarrow>
     t = toks @ filter (strchr VALID_TOKENS) s \<and> length t < MSG_SIZE"
  by (induction s arbitrary: toks) (fastforce split: if_splits)+

lemma tokenize_loop_valid:
  "\<forall>c \<in> set s. strchr VALID_TOKENS c \<or> c = CHR '' '' \<or> c = CHR ''='' \<Longrightarrow>
   length toks + length (filter (strchr VALID_TOKENS) s) < MSG_SIZE \<Longrightarrow>
   tokenize_loop s toks = Inr (toks @ filter (strchr VALID_TOKENS) s)"
  by (induction s arbitrary: toks) auto

lemma tokenize_loop_invalid:
  "c \<in> set s \<Longrightarrow> \<not> strchr VALID_TOKENS c \<Longrightarrow> c \<noteq> CHR '' '' \<Longrightarrow> c \<noteq> CHR ''='' \<Longrightarrow>
   length toks + length s < MSG_SIZE \<Longrightarrow>
   tokenize_loop s toks = Inl InvalidInput"
proof (induction s arbitrary: toks)
  case Nil
  then show ?case by simp
next
  case (Cons a s)
  show ?case
  proof (cases "a = c")
    case True
    with Cons.prems show ?thesis by simp
  next
    case False
    with Cons.prems have "c \<in> set s" by simp
    moreover have "length (toks @ [a]) + length s < MSG_SIZE"
      and "length toks + length s < MSG_SIZE"
      using Cons.prems by simp_all
    ultimately have "tokenize_loop s (toks @ [a]) = Inl InvalidInput"
      and "tokenize_loop s toks = Inl InvalidInput"
      using Cons.IH Cons.prems by blast+
    moreover have "length toks < MSG_SIZE" using Cons.prems by simp
    ultimately show ?thesis by simp
  qed
qed

lemma filter_strchr_line:
  "NUL \<notin> set s \<Longrightarrow> filter (strchr VALID_TOKENS) s = filter is_token s"
  by (rule filter_cong) (auto simp: strchr_VALID_TOKENS)

lemma tokenize_fixpoint:
  assumes tk: "\<forall>c \<in> set t. strchr VALID_TOKENS c" and len: "length t < MSG_SIZE"
  shows "tokenize t = Inr t"
proof -
  have f: "filter (strchr VALID_TOKENS) t = t"
    using tk by (simp add: filter_id_conv)
  have "tokenize_loop t [] = Inr ([] @ filter (strchr VALID_TOKENS) t)"
    using tk len by (intro tokenize_loop_valid) (simp_all add: f)
  then show ?thesis by (simp add: tokenize_def f)
qed

text \<open>
  The overflow case of the model: 32 token characters fill the buffer and leave no
  room for the terminator. No input line is that long.
\<close>

lemma tokenize_overflow: "tokenize (replicate 32 (CHR ''1'')) = Inl (Undefined BufferOverflow)"
  by code_simp

text \<open>
  C3. For every input line made only of digits, the operators \<open>+ - * /\<close>, parentheses,
  spaces and \<open>=\<close>, tokenization succeeds (and returns the token characters of the line
  in their order); for every input line with any other character anywhere, tokenization
  fails with \<open>InvalidInput\<close>, which carries no token stream.
\<close>

theorem tokenize_alphabet:
  assumes "is_line s"
  shows "(set s \<subseteq> input_alphabet \<longrightarrow> tokenize s = Inr (filter is_token s)) \<and>
         (\<not> set s \<subseteq> input_alphabet \<longrightarrow> tokenize s = Inl InvalidInput)"
proof (intro conjI impI)
  from assms have nul: "NUL \<notin> set s" and len: "length s < MSG_SIZE"
    by (simp_all add: is_line_def)
  have cls: "strchr VALID_TOKENS c = is_token c" if "c \<in> set s" for c
    using that nul by (auto simp: strchr_VALID_TOKENS)
  {
    assume sub: "set s \<subseteq> input_alphabet"
    have "\<forall>c \<in> set s. strchr VALID_TOKENS c \<or> c = CHR '' '' \<or> c = CHR ''=''"
      using sub cls by (auto simp: input_alphabet_iff)
    moreover have "length ([]::string) + length (filter (strchr VALID_TOKENS) s) < MSG_SIZE"
      using le_less_trans [OF length_filter_le len] by simp
    ultimately have "tokenize_loop s [] = Inr ([] @ filter (strchr VALID_TOKENS) s)"
      by (rule tokenize_loop_valid)
    then show "tokenize s = Inr (filter is_token s)"
      using nul by (simp add: tokenize_def filter_strchr_line)
  }
  {
    assume "\<not> set s \<subseteq> input_alphabet"
    then obtain c where "c \<in> set s" and "c \<notin> input_alphabet" by auto
    then have "c \<in> set s" and "\<not> strchr VALID_TOKENS c"
      and "c \<noteq> CHR '' ''" and "c \<noteq> CHR ''=''"
      using cls by (auto simp: input_alphabet_iff)
    moreover have "length ([]::string) + length s < MSG_SIZE" using len by simp
    ultimately show "tokenize s = Inl InvalidInput"
      unfolding tokenize_def by (rule tokenize_loop_invalid)
  }
qed

theorem tokenize_alphabet_witness:
  "is_line ''2 + 6 * 6 ='' \<and> is_line ''2 a 2'' \<and>
   tokenize ''2 + 6 * 6 ='' = Inr ''2+6*6'' \<and> tokenize ''2 a 2'' = Inl InvalidInput"
  using tokenize_alphabet [of "''2 + 6 * 6 =''"] tokenize_alphabet [of "''2 a 2''"]
  by (simp add: is_line_def NUL_def MSG_SIZE_def input_alphabet_def is_token_def
      VALID_TOKENS_def)

text \<open>
  C9. Tokenization is idempotent on its own outputs: a token stream (token characters
  only, no whitespace, short enough for the token buffer) is returned unchanged, and
  hence tokenizing the result of a successful tokenization gives that result again.
\<close>

theorem tokenize_idempotent:
  "(set t \<subseteq> set VALID_TOKENS \<and> length t < MSG_SIZE \<longrightarrow> tokenize t = Inr t) \<and>
   (tokenize s = Inr t \<longrightarrow> tokenize t = Inr t)"
proof (intro conjI impI)
  {
    assume "set t \<subseteq> set VALID_TOKENS \<and> length t < MSG_SIZE"
    then show "tokenize t = Inr t"
      by (intro tokenize_fixpoint) (auto simp: strchr_def)
  }
  {
    assume "tokenize s = Inr t"
    then have r: "t = [] @ filter (strchr VALID_TOKENS) s \<and> length t < MSG_SIZE"
      unfolding tokenize_def by (rule tokenize_loop_Inr)
    have "t = filter (strchr VALID_TOKENS) s" using conjunct1 [OF r] by simp
    then have "\<forall>c \<in> set t. strchr VALID_TOKENS c" by simp
    then show "tokenize t = Inr t"
      using conjunct2 [OF r] by (rule tokenize_fixpoint)
  }
qed

theorem tokenize_idempotent_witness:
  "set ''2+6*6'' \<subseteq> set VALID_TOKENS \<and> length ''2+6*6'' < MSG_SIZE \<and>
   tokenize ''2 + 6 * 6 ='' = Inr ''2+6*6'' \<and> tokenize ''2+6*6'' = Inr ''2+6*6''"
  using tokenize_idempotent [of "''2+6*6''" "''2 + 6 * 6 =''"]
  by (simp add: MSG_SIZE_def VALID_TOKENS_def tokenize_def strchr_def NUL_def)

section \<open>Evaluator\<close>

lemma calculate_wf_error:
  "wf_tree t \<Longrightarrow> calculate t = Inl e \<Longrightarrow> e = Undefined DivisionByZero"
  by (induction t arbitrary: e) (auto split: if_splits sum.splits)

lemma calculate_wf_cases:
  "wf_tree t \<Longrightarrow> (\<exists>v. calculate t = Inr v) \<or> calculate t = Inl (Undefined DivisionByZero)"
  by (cases "calculate t") (auto dest: calculate_wf_error)

lemma calculate_zero_denominator:
  "wf_tree t \<Longrightarrow> zero_denominator t \<Longrightarrow> calculate t = Inl (Undefined DivisionByZero)"
proof (induction t)
  case NULL
  then show ?case by simp
next
  case (Node ty v l r)
  from Node.prems have ty: "ty \<noteq> CHR ''n''" and wl: "wf_tree l" and wr: "wf_tree r"
    by (auto split: if_splits)
  from Node.prems ty consider
    (L) "zero_denominator l" | (R) "zero_denominator r"
    | (D) "ty = CHR ''/''" "calculate r = Inr 0" by auto
  then show ?case
  proof cases
    case L
    then have "calculate l = Inl (Undefined DivisionByZero)" using Node.IH(1) wl by simp
    then show ?thesis using ty by simp
  next
    case R
    then have "calculate r = Inl (Undefined DivisionByZero)" using Node.IH(2) wr by simp
    then show ?thesis using ty calculate_wf_cases [OF wl] by auto
  next
    case D
    then show ?thesis using calculate_wf_cases [OF wl] by auto
  qed
qed

text \<open>
  C1. The claim is that a division whose denominator evaluates to zero is detected and
  reported as a \<open>DivisionByZero\<close> error. The code has no such check: it executes
  \<open>left / right\<close> before its conditional looks at anything, so for every well-formed
  tree with such a division, and for the input \<open>5 / 0\<close>, the run ends in the undefined
  division and no value is returned.
\<close>

theorem division_by_zero_unchecked:
  "(wf_tree t \<longrightarrow> zero_denominator t \<longrightarrow>
      calculate t = Inl (Undefined DivisionByZero) \<and> (\<forall>v. calculate t \<noteq> Inr v)) \<and>
   main_line ''5 / 0'' = Some (Inl (Undefined DivisionByZero))"
proof (intro conjI impI)
  show "main_line ''5 / 0'' = Some (Inl (Undefined DivisionByZero))" by code_simp
next
  assume "wf_tree t" and "zero_denominator t"
  then show "calculate t = Inl (Undefined DivisionByZero)"
    by (rule calculate_zero_denominator)
  then show "\<forall>v. calculate t \<noteq> Inr v" by simp
qed

theorem division_by_zero_unchecked_witness:
  "wf_tree (Node (CHR ''/'') 0 (Node (CHR ''n'') 5 NULL NULL) (Node (CHR ''n'') 0 NULL NULL)) \<and>
   zero_denominator
     (Node (CHR ''/'') 0 (Node (CHR ''n'') 5 NULL NULL) (Node (CHR ''n'') 0 NULL NULL)) \<and>
   parse ''5/0'' =
     Some (Node (CHR ''/'') 0 (Node (CHR ''n'') 5 NULL NULL) (Node (CHR ''n'') 0 NULL NULL)) \<and>
   calculate (Node (CHR ''/'') 0 (Node (CHR ''n'') 5 NULL NULL) (Node (CHR ''n'') 0 NULL NULL))
     = Inl (Undefined DivisionByZero)"
proof -
  have p: "parse ''5/0'' =
     Some (Node (CHR ''/'') 0 (Node (CHR ''n'') 5 NULL NULL) (Node (CHR ''n'') 0 NULL NULL))"
    by code_simp
  show ?thesis
    using p division_by_zero_unchecked
      [of "Node (CHR ''/'') 0 (Node (CHR ''n'') 5 NULL NULL) (Node (CHR ''n'') 0 NULL NULL)"]
    by (simp add: is_operator_def)
qed

text \<open>
  C2. The claim is that \<open>/\<close> is integer division truncating towards zero, so that
  \<open>7/2\<close> gives 3. The code computes that quotient but returns the right operand when
  the quotient is not zero, and 0 otherwise: \<open>7/2\<close> gives 2.
\<close>

theorem division_returns_right_operand:
  "main_line ''7/2'' = Some (Inr 2) \<and> c_div 7 2 = 3 \<and>
   calculate (Node (CHR ''/'') 0 (Node (CHR ''n'') 7 NULL NULL) (Node (CHR ''n'') 2 NULL NULL))
     = Inr 2"
proof (intro conjI)
  show "main_line ''7/2'' = Some (Inr 2)" by code_simp
  show "c_div 7 2 = 3" by (simp add: c_div_def signed_divide_int_def)
  then show "calculate (Node (CHR ''/'') 0 (Node (CHR ''n'') 7 NULL NULL)
      (Node (CHR ''n'') 2 NULL NULL)) = Inr 2"
    by simp
qed

lemma calculate_division:
  "calculate l = Inr a \<Longrightarrow> calculate r = Inr b \<Longrightarrow> b \<noteq> 0 \<Longrightarrow>
   calculate (Node (CHR ''/'') v l r) = Inr (if c_div a b \<noteq> 0 then b else 0)"
  by simp

section \<open>Parser: the cursor\<close>

lemma cursor_le_refl: "wf_parser p \<Longrightarrow> cursor_le p p"
  by (simp add: cursor_le_def wf_parser_def)

lemma cursor_le_trans: "cursor_le p q \<Longrightarrow> cursor_le q r \<Longrightarrow> cursor_le p r"
  by (auto simp: cursor_le_def)

lemma cursor_le_wf: "wf_parser p \<Longrightarrow> cursor_le p q \<Longrightarrow> wf_parser q"
  by (auto simp: cursor_le_def wf_parser_def)

text \<open>A token other than the terminator is read only before the end of the stream.\<close>

lemma tok_not_NUL_less: "wf_parser p \<Longrightarrow> tok p \<noteq> NUL \<Longrightarrow> index p < numTokens p"
  by (auto simp: wf_parser_def tok_def split: if_splits)

lemma cursor_le_advance:
  "wf_parser p \<Longrightarrow> index p < numTokens p \<Longrightarrow> cursor_le p (advance p)"
  by (simp add: cursor_le_def wf_parser_def advance_def)

lemma cursor_le_advance_tok:
  "wf_parser p \<Longrightarrow> tok p = c \<Longrightarrow> c \<noteq> NUL \<Longrightarrow> cursor_le p (advance p)"
  by (auto intro: cursor_le_advance tok_not_NUL_less)

lemma NUL_simps: "CHR ''('' \<noteq> NUL" "CHR '')'' \<noteq> NUL"
  by (simp_all add: NUL_def)

lemma remaining_cursor_le: "cursor_le p q \<Longrightarrow> remaining q \<le> remaining p"
  by (auto simp: cursor_le_def remaining_def)

lemma remaining_advance:
  "index p < numTokens p \<Longrightarrow> remaining p = Suc (remaining (advance p))"
  by (auto simp: remaining_def advance_def)

lemma parseNumber_loop_stop:
  "\<not> (strchr ''0123456789'' (tok p) \<and> length number < MSG_SIZE \<and> index p < numTokens p) \<Longrightarrow>
   parseNumber_loop p number = (p, number)"
  by (subst parseNumber_loop.simps) (erule if_not_P)

lemma parseNumber_loop_step:
  "strchr ''0123456789'' (tok p) \<and> length number < MSG_SIZE \<and> index p < numTokens p \<Longrightarrow>
   parseNumber_loop p number = parseNumber_loop (advance p) (number @ [tok p])"
  by (subst parseNumber_loop.simps) (erule if_P)

lemma parseNumber_loop_cursor:
  "wf_parser p \<Longrightarrow> parseNumber_loop p number = (p', number') \<Longrightarrow> cursor_le p p'"
proof (induction p number rule: parseNumber_loop.induct)
  case (1 p number)
  show ?case
  proof (cases "strchr ''0123456789'' (tok p) \<and> length number < MSG_SIZE
      \<and> index p < numTokens p")
    case True
    then have step: "cursor_le p (advance p)"
      using "1.prems"(1) by (simp add: cursor_le_advance)
    then have "wf_parser (advance p)" using "1.prems"(1) by (rule cursor_le_wf [rotated])
    moreover have "parseNumber_loop (advance p) (number @ [tok p]) = (p', number')"
      using "1.prems"(2) parseNumber_loop_step [OF True] by simp
    ultimately have "cursor_le (advance p) p'" using "1.IH" True by blast
    with step show ?thesis by (rule cursor_le_trans)
  next
    case False
    then have "p' = p" using "1.prems"(2) parseNumber_loop_stop [OF False] by simp
    then show ?thesis using "1.prems"(1) by (simp add: cursor_le_refl)
  qed
qed

text \<open>
  The digit buffer \<open>number\<close> of \<open>parseNumber\<close> has \<open>MSG_SIZE\<close> bytes. The loop stops
  at a cursor that has moved by the number of digits stored, so on a token string from
  \<open>tokenize\<close> (fewer than \<open>MSG_SIZE\<close> tokens) the terminator written at
  \<open>number[digits]\<close> is inside the buffer.
\<close>

lemma parseNumber_loop_digits:
  "parseNumber_loop p number = (p', number') \<Longrightarrow>
   length number' + index p = length number + index p'"
proof (induction p number rule: parseNumber_loop.induct)
  case (1 p number)
  show ?case
  proof (cases "strchr ''0123456789'' (tok p) \<and> length number < MSG_SIZE
      \<and> index p < numTokens p")
    case True
    then have "parseNumber_loop (advance p) (number @ [tok p]) = (p', number')"
      using "1.prems" parseNumber_loop_step [OF True] by simp
    then have "length number' + index (advance p) = length (number @ [tok p]) + index p'"
      using "1.IH" True by blast
    then show ?thesis by (simp add: advance_def)
  next
    case False
    then show ?thesis using "1.prems" parseNumber_loop_stop [OF False] by simp
  qed
qed

lemma parseNumber_digits_in_buffer:
  assumes "wf_parser p" and "numTokens p < MSG_SIZE"
    and "parseNumber_loop p [] = (p', number)"
  shows "length number < MSG_SIZE"
proof -
  have "cursor_le p p'" using assms(1,3) by (rule parseNumber_loop_cursor)
  then have "index p' \<le> numTokens p" by (simp add: cursor_le_def)
  moreover have "length number + index p = index p'"
    using parseNumber_loop_digits [OF assms(3)] by simp
  ultimately show ?thesis using assms(2) by simp
qed

lemma parseNumber_cursor:
  "wf_parser p \<Longrightarrow> parseNumber p = (e, p') \<Longrightarrow> cursor_le p p'"
  by (auto simp: parseNumber_def split: prod.splits dest: parseNumber_loop_cursor)

text \<open>
  The cursor property for the five mutually recursive functions, by the induction rule
  that follows their recursion.
\<close>

lemma parsers_cursor:
  shows "wf_parser p \<Longrightarrow> parseAddition n p = Some (e, p') \<Longrightarrow> cursor_le p p'"
    and "wf_parser p \<Longrightarrow> parseAddition_loop n p x = Some (e, p') \<Longrightarrow> cursor_le p p'"
    and "wf_parser p \<Longrightarrow> parseMultiplication n p = Some (e, p') \<Longrightarrow> cursor_le p p'"
    and "wf_parser p \<Longrightarrow> parseMultiplication_loop n p x = Some (e, p') \<Longrightarrow> cursor_le p p'"
    and "wf_parser p \<Longrightarrow> parseParenthesis n p = Some (e, p') \<Longrightarrow> cursor_le p p'"
proof (induction n p and n p x and n p and n p x and n p
    arbitrary: e p' and e p' and e p' and e p' and e p'
    rule: parseAddition_parseAddition_loop_parseMultiplication_parseMultiplication_loop_parseParenthesis.induct)
  case (1 p)
  then show ?case by simp
next
  case (2 n p)
  from "2.prems"(2) obtain e1 p1 where
    m: "parseMultiplication n p = Some (e1, p1)"
    and l: "parseAddition_loop n p1 e1 = Some (e, p')"
    by (auto split: option.splits)
  have c1: "cursor_le p p1" using "2.IH"(1) "2.prems"(1) m by blast
  then have "wf_parser p1" using "2.prems"(1) by (rule cursor_le_wf [rotated])
  then have "cursor_le p1 p'" using "2.IH"(2) m l by blast
  with c1 show ?case by (rule cursor_le_trans)
next
  case (3 p x)
  then show ?case by simp
next
  case (4 n p x)
  show ?case
  proof (cases "index p < numTokens p \<and> (tok p = CHR ''+'' \<or> tok p = CHR ''-'')")
    case True
    with "4.prems"(2) obtain e1 p1 where
      m: "parseMultiplication n (advance p) = Some (e1, p1)"
      and l: "parseAddition_loop n p1 (createExpressionTree (tok p) 0 x e1) = Some (e, p')"
      by (auto split: option.splits)
    have c0: "cursor_le p (advance p)"
      using True "4.prems"(1) by (simp add: cursor_le_advance)
    then have w0: "wf_parser (advance p)" using "4.prems"(1) by (rule cursor_le_wf [rotated])
    have c1: "cursor_le (advance p) p1" using "4.IH"(1) True w0 m by blast
    then have "wf_parser p1" using w0 by (rule cursor_le_wf [rotated])
    then have "cursor_le p1 p'" using "4.IH"(2) True m l by blast
    with c0 c1 show ?thesis by (blast intro: cursor_le_trans)
  next
    case False
    with "4.prems" show ?thesis by (auto simp: cursor_le_refl)
  qed
next
  case (5 p)
  then show ?case by simp
next
  case (6 n p)
  from "6.prems"(2) obtain e1 p1 where
    m: "parseParenthesis n p = Some (e1, p1)"
    and l: "parseMultiplication_loop n p1 e1 = Some (e, p')"
    by (auto split: option.splits)
  have c1: "cursor_le p p1" using "6.IH"(1) "6.prems"(1) m by blast
  then have "wf_parser p1" using "6.prems"(1) by (rule cursor_le_wf [rotated])
  then have "cursor_le p1 p'" using "6.IH"(2) m l by blast
  with c1 show ?case by (rule cursor_le_trans)
next
  case (7 p x)
  then show ?case by simp
next
  case (8 n p x)
  show ?case
  proof (cases "index p < numTokens p \<and> (tok p = CHR ''*'' \<or> tok p = CHR ''/'')")
    case True
    with "8.prems"(2) obtain e1 p1 where
      m: "parseParenthesis n (advance p) = Some (e1, p1)"
      and l: "parseMultiplication_loop n p1 (createExpressionTree (tok p) 0 x e1)
                = Some (e, p')"
      by (auto split: option.splits)
    have c0: "cursor_le p (advance p)"
      using True "8.prems"(1) by (simp add: cursor_le_advance)
    then have w0: "wf_parser (advance p)" using "8.prems"(1) by (rule cursor_le_wf [rotated])
    have c1: "cursor_le (advance p) p1" using "8.IH"(1) True w0 m by blast
    then have "wf_parser p1" using w0 by (rule cursor_le_wf [rotated])
    then have "cursor_le p1 p'" using "8.IH"(2) True m l by blast
    with c0 c1 show ?thesis by (blast intro: cursor_le_trans)
  next
    case False
    with "8.prems" show ?thesis by (auto simp: cursor_le_refl)
  qed
next
  case (9 p)
  then show ?case by simp
next
  case (10 n p)
  show ?case
  proof (cases "tok p = CHR ''(''")
    case True
    with "10.prems"(2) obtain p1 where
      a: "parseAddition n (advance p) = Some (e, p1)"
      and p': "p' = (if tok p1 = CHR '')'' then advance p1 else p1)"
      by (auto split: option.splits)
    have c0: "cursor_le p (advance p)"
      using True "10.prems"(1) by (simp add: cursor_le_advance_tok NUL_simps)
    then have w0: "wf_parser (advance p)" using "10.prems"(1) by (rule cursor_le_wf [rotated])
    have c1: "cursor_le (advance p) p1" using "10.IH" True w0 a by blast
    then have w1: "wf_parser p1" using w0 by (rule cursor_le_wf [rotated])
    have "cursor_le p1 p'"
      using w1 p' by (auto simp: cursor_le_refl cursor_le_advance_tok NUL_simps)
    with c0 c1 show ?thesis by (blast intro: cursor_le_trans)
  next
    case False
    with "10.prems" show ?thesis by (auto dest: parseNumber_cursor)
  qed
qed

section \<open>Parser: termination\<close>

text \<open>
  With a call-depth bound of three per remaining token plus three, every sub-parser
  returns. Each opening parenthesis costs three nested calls and consumes a token, and
  each loop iteration consumes one.
\<close>

lemma parsers_total:
  shows "wf_parser p \<Longrightarrow> 3 * remaining p + 3 \<le> n \<Longrightarrow> \<exists>r. parseAddition n p = Some r"
    and "wf_parser p \<Longrightarrow> 3 * remaining p + 1 \<le> n \<Longrightarrow> \<exists>r. parseAddition_loop n p x = Some r"
    and "wf_parser p \<Longrightarrow> 3 * remaining p + 2 \<le> n \<Longrightarrow> \<exists>r. parseMultiplication n p = Some r"
    and "wf_parser p \<Longrightarrow> 3 * remaining p + 1 \<le> n \<Longrightarrow> \<exists>r. parseMultiplication_loop n p x = Some r"
    and "wf_parser p \<Longrightarrow> 3 * remaining p + 1 \<le> n \<Longrightarrow> \<exists>r. parseParenthesis n p = Some r"
proof (induction n p and n p x and n p and n p x and n p
    rule: parseAddition_parseAddition_loop_parseMultiplication_parseMultiplication_loop_parseParenthesis.induct)
  case (1 p)
  then show ?case by simp
next
  case (2 n p)
  then obtain e1 p1 where m: "parseMultiplication n p = Some (e1, p1)" by fastforce
  have c1: "cursor_le p p1" using parsers_cursor(3) [OF "2.prems"(1) m] .
  then have w1: "wf_parser p1" using "2.prems"(1) by (rule cursor_le_wf [rotated])
  have "3 * remaining p1 + 1 \<le> n" using remaining_cursor_le [OF c1] "2.prems"(2) by simp
  then obtain r where "parseAddition_loop n p1 e1 = Some r" using "2.IH"(2) m w1 by blast
  then show ?case using m by simp
next
  case (3 p x)
  then show ?case by simp
next
  case (4 n p x)
  show ?case
  proof (cases "index p < numTokens p \<and> (tok p = CHR ''+'' \<or> tok p = CHR ''-'')")
    case True
    have c0: "cursor_le p (advance p)" using True "4.prems"(1) by (simp add: cursor_le_advance)
    then have w0: "wf_parser (advance p)" using "4.prems"(1) by (rule cursor_le_wf [rotated])
    have r0: "remaining p = Suc (remaining (advance p))" using True by (simp add: remaining_advance)
    then have "3 * remaining (advance p) + 2 \<le> n" using "4.prems"(2) by simp
    then obtain e1 p1 where m: "parseMultiplication n (advance p) = Some (e1, p1)"
      using "4.IH"(1) True w0 by fastforce
    have c1: "cursor_le (advance p) p1" using parsers_cursor(3) [OF w0 m] .
    then have w1: "wf_parser p1" using w0 by (rule cursor_le_wf [rotated])
    have "3 * remaining p1 + 1 \<le> n" using remaining_cursor_le [OF c1] r0 "4.prems"(2) by simp
    then obtain r where
      "parseAddition_loop n p1 (createExpressionTree (tok p) 0 x e1) = Some r"
      using "4.IH"(2) True m w1 by blast
    then show ?thesis using True m by simp
  next
    case False
    then show ?thesis by auto
  qed
next
  case (5 p)
  then show ?case by simp
next
  case (6 n p)
  then obtain e1 p1 where m: "parseParenthesis n p = Some (e1, p1)" by fastforce
  have c1: "cursor_le p p1" using parsers_cursor(5) [OF "6.prems"(1) m] .
  then have w1: "wf_parser p1" using "6.prems"(1) by (rule cursor_le_wf [rotated])
  have "3 * remaining p1 + 1 \<le> n" using remaining_cursor_le [OF c1] "6.prems"(2) by simp
  then obtain r where "parseMultiplication_loop n p1 e1 = Some r" using "6.IH"(2) m w1 by blast
  then show ?case using m by simp
next
  case (7 p x)
  then show ?case by simp
next
  case (8 n p x)
  show ?case
  proof (cases "index p < numTokens p \<and> (tok p = CHR ''*'' \<or> tok p = CHR ''/'')")
    case True
    have c0: "cursor_le p (advance p)" using True "8.prems"(1) by (simp add: cursor_le_advance)
    then have w0: "wf_parser (advance p)" using "8.prems"(1) by (rule cursor_le_wf [rotated])
    have r0: "remaining p = Suc (remaining (advance p))" using True by (simp add: remaining_advance)
    then have "3 * remaining (advance p) + 1 \<le> n" using "8.prems"(2) by simp
    then obtain e1 p1 where m: "parseParenthesis n (advance p) = Some (e1, p1)"
      using "8.IH"(1) True w0 by fastforce
    have c1: "cursor_le (advance p) p1" using parsers_cursor(5) [OF w0 m] .
    then have w1: "wf_parser p1" using w0 by (rule cursor_le_wf [rotated])
    have "3 * remaining p1 + 1 \<le> n" using remaining_cursor_le [OF c1] r0 "8.prems"(2) by simp
    then obtain r where
      "parseMultiplication_loop n p1 (createExpressionTree (tok p) 0 x e1) = Some r"
      using "8.IH"(2) True m w1 by blast
    then show ?thesis using True m by simp
  next
    case False
    then show ?thesis by auto
  qed
next
  case (9 p)
  then show ?case by simp
next
  case (10 n p)
  show ?case
  proof (cases "tok p = CHR ''(''")
    case True
    then have lt: "index p < numTokens p"
      using "10.prems"(1) by (intro tok_not_NUL_less) (simp_all add: NUL_simps)
    have c0: "cursor_le p (advance p)" using lt "10.prems"(1) by (simp add: cursor_le_advance)
    then have w0: "wf_parser (advance p)" using "10.prems"(1) by (rule cursor_le_wf [rotated])
    have r0: "remaining p = Suc (remaining (advance p))" using lt by (simp add: remaining_advance)
    then have "3 * remaining (advance p) + 3 \<le> n" using "10.prems"(2) by simp
    then obtain r where "parseAddition n (advance p) = Some r"
      using "10.IH" True w0 by blast
    then show ?thesis using True by (cases r) simp
  next
    case False
    then show ?thesis by simp
  qed
qed

text \<open>A larger bound never changes a result: the outcome is that of the C code.\<close>

lemma parsers_fuel:
  shows "parseAddition n p = Some r \<Longrightarrow> parseAddition (n + k) p = Some r"
    and "parseAddition_loop n p x = Some r \<Longrightarrow> parseAddition_loop (n + k) p x = Some r"
    and "parseMultiplication n p = Some r \<Longrightarrow> parseMultiplication (n + k) p = Some r"
    and "parseMultiplication_loop n p x = Some r \<Longrightarrow> parseMultiplication_loop (n + k) p x = Some r"
    and "parseParenthesis n p = Some r \<Longrightarrow> parseParenthesis (n + k) p = Some r"
proof (induction n p and n p x and n p and n p x and n p arbitrary: r and r and r and r and r
    rule: parseAddition_parseAddition_loop_parseMultiplication_parseMultiplication_loop_parseParenthesis.induct)
  case (2 n p)
  from "2.prems" obtain e1 p1 where
    m: "parseMultiplication n p = Some (e1, p1)" and l: "parseAddition_loop n p1 e1 = Some r"
    by (auto split: option.splits)
  have "parseMultiplication (n + k) p = Some (e1, p1)" using "2.IH"(1) m by blast
  moreover have "parseAddition_loop (n + k) p1 e1 = Some r" using "2.IH"(2) m l by blast
  ultimately show ?case by simp
next
  case (4 n p x)
  show ?case
  proof (cases "index p < numTokens p \<and> (tok p = CHR ''+'' \<or> tok p = CHR ''-'')")
    case True
    with "4.prems" obtain e1 p1 where
      m: "parseMultiplication n (advance p) = Some (e1, p1)"
      and l: "parseAddition_loop n p1 (createExpressionTree (tok p) 0 x e1) = Some r"
      by (auto split: option.splits)
    have "parseMultiplication (n + k) (advance p) = Some (e1, p1)"
      using "4.IH"(1) True m by blast
    moreover have
      "parseAddition_loop (n + k) p1 (createExpressionTree (tok p) 0 x e1) = Some r"
      using "4.IH"(2) True m l by blast
    ultimately show ?thesis using True by simp
  next
    case False
    with "4.prems" show ?thesis by auto
  qed
next
  case (6 n p)
  from "6.prems" obtain e1 p1 where
    m: "parseParenthesis n p = Some (e1, p1)" and l: "parseMultiplication_loop n p1 e1 = Some r"
    by (auto split: option.splits)
  have "parseParenthesis (n + k) p = Some (e1, p1)" using "6.IH"(1) m by blast
  moreover have "parseMultiplication_loop (n + k) p1 e1 = Some r" using "6.IH"(2) m l by blast
  ultimately show ?case by simp
next
  case (8 n p x)
  show ?case
  proof (cases "index p < numTokens p \<and> (tok p = CHR ''*'' \<or> tok p = CHR ''/'')")
    case True
    with "8.prems" obtain e1 p1 where
      m: "parseParenthesis n (advance p) = Some (e1, p1)"
      and l: "parseMultiplication_loop n p1 (createExpressionTree (tok p) 0 x e1) = Some r"
      by (auto split: option.splits)
    have "parseParenthesis (n + k) (advance p) = Some (e1, p1)"
      using "8.IH"(1) True m by blast
    moreover have
      "parseMultiplication_loop (n + k) p1 (createExpressionTree (tok p) 0 x e1) = Some r"
      using "8.IH"(2) True m l by blast
    ultimately show ?thesis using True by simp
  next
    case False
    with "8.prems" show ?thesis by auto
  qed
next
  case (10 n p)
  show ?case
  proof (cases "tok p = CHR ''(''")
    case True
    with "10.prems" obtain e1 p1 where
      a: "parseAddition n (advance p) = Some (e1, p1)"
      and r: "r = (e1, if tok p1 = CHR '')'' then advance p1 else p1)"
      by (auto split: option.splits)
    have "parseAddition (n + k) (advance p) = Some (e1, p1)" using "10.IH" True a by blast
    then show ?thesis using True r by simp
  next
    case False
    with "10.prems" show ?thesis by auto
  qed
qed simp_all

section \<open>Parser: the trees it builds\<close>

lemma parseNumber_wf_tree: "parseNumber p = (e, p') \<Longrightarrow> wf_tree e"
  by (auto simp: parseNumber_def createExpressionTree_def split: prod.splits)

lemma operator_node_wf:
  "tok p = CHR ''+'' \<or> tok p = CHR ''-'' \<or> tok p = CHR ''*'' \<or> tok p = CHR ''/'' \<Longrightarrow>
   wf_tree x \<Longrightarrow> wf_tree y \<Longrightarrow> wf_tree (createExpressionTree (tok p) 0 x y)"
  by (auto simp: createExpressionTree_def is_operator_def)

lemma parsers_wf_tree:
  shows "parseAddition n p = Some (e, p') \<Longrightarrow> wf_tree e"
    and "wf_tree x \<Longrightarrow> parseAddition_loop n p x = Some (e, p') \<Longrightarrow> wf_tree e"
    and "parseMultiplication n p = Some (e, p') \<Longrightarrow> wf_tree e"
    and "wf_tree x \<Longrightarrow> parseMultiplication_loop n p x = Some (e, p') \<Longrightarrow> wf_tree e"
    and "parseParenthesis n p = Some (e, p') \<Longrightarrow> wf_tree e"
proof (induction n p and n p x and n p and n p x and n p
    arbitrary: e p' and e p' and e p' and e p' and e p'
    rule: parseAddition_parseAddition_loop_parseMultiplication_parseMultiplication_loop_parseParenthesis.induct)
  case (2 n p)
  from "2.prems" obtain e1 p1 where
    m: "parseMultiplication n p = Some (e1, p1)"
    and l: "parseAddition_loop n p1 e1 = Some (e, p')"
    by (auto split: option.splits)
  have "wf_tree e1" using "2.IH"(1) m by blast
  then show ?case using "2.IH"(2) m l by blast
next
  case (4 n p x)
  show ?case
  proof (cases "index p < numTokens p \<and> (tok p = CHR ''+'' \<or> tok p = CHR ''-'')")
    case True
    with "4.prems"(2) obtain e1 p1 where
      m: "parseMultiplication n (advance p) = Some (e1, p1)"
      and l: "parseAddition_loop n p1 (createExpressionTree (tok p) 0 x e1) = Some (e, p')"
      by (auto split: option.splits)
    have "wf_tree e1" using "4.IH"(1) True m by blast
    then have "wf_tree (createExpressionTree (tok p) 0 x e1)"
      using True "4.prems"(1) by (intro operator_node_wf) auto
    then show ?thesis using "4.IH"(2) True m l by blast
  next
    case False
    with "4.prems" show ?thesis by auto
  qed
next
  case (6 n p)
  from "6.prems" obtain e1 p1 where
    m: "parseParenthesis n p = Some (e1, p1)"
    and l: "parseMultiplication_loop n p1 e1 = Some (e, p')"
    by (auto split: option.splits)
  have "wf_tree e1" using "6.IH"(1) m by blast
  then show ?case using "6.IH"(2) m l by blast
next
  case (8 n p x)
  show ?case
  proof (cases "index p < numTokens p \<and> (tok p = CHR ''*'' \<or> tok p = CHR ''/'')")
    case True
    with "8.prems"(2) obtain e1 p1 where
      m: "parseParenthesis n (advance p) = Some (e1, p1)"
      and l: "parseMultiplication_loop n p1 (createExpressionTree (tok p) 0 x e1)
                = Some (e, p')"
      by (auto split: option.splits)
    have "wf_tree e1" using "8.IH"(1) True m by blast
    then have "wf_tree (createExpressionTree (tok p) 0 x e1)"
      using True "8.prems"(1) by (intro operator_node_wf) auto
    then show ?thesis using "8.IH"(2) True m l by blast
  next
    case False
    with "8.prems" show ?thesis by auto
  qed
next
  case (10 n p)
  show ?case
  proof (cases "tok p = CHR ''(''")
    case True
    with "10.prems" obtain p1 where "parseAddition n (advance p) = Some (e, p1)"
      by (auto split: option.splits)
    then show ?thesis using "10.IH" True by blast
  next
    case False
    with "10.prems" show ?thesis by (auto dest: parseNumber_wf_tree)
  qed
qed simp_all

lemma wf_new_parser: "wf_parser (new_parser toks)"
  by (simp add: wf_parser_def new_parser_def)

lemma remaining_new_parser: "remaining (new_parser toks) = length toks"
  by (simp add: remaining_def new_parser_def)

lemma parse_new_parser:
  "\<exists>e p'. parseAddition (3 * length toks + 3) (new_parser toks) = Some (e, p')"
proof -
  have "3 * remaining (new_parser toks) + 3 \<le> 3 * length toks + 3"
    by (simp add: remaining_new_parser)
  with wf_new_parser obtain r where
    "parseAddition (3 * length toks + 3) (new_parser toks) = Some r"
    using parsers_total(1) by blast
  then show ?thesis by (cases r) simp
qed

lemma parse_Some: "\<exists>t. parse toks = Some t"
  using parse_new_parser [of toks] by (auto simp: parse_def)

lemma fold_terms_Cons:
  "fold_terms e ((op, r) # ts) = fold_terms (Node op 0 e r) ts"
  by (simp add: fold_terms_def)

section \<open>Parser: every assignment to the cursor\<close>

text \<open>Dropping the history gives the sub-parsers back.\<close>

lemma parseNumber_loop_untrace:
  "(case parseNumber_loop_trace p number of (p', number', tr) \<Rightarrow> (p', number'))
     = parseNumber_loop p number"
proof (induction p number rule: parseNumber_loop.induct)
  case (1 p number)
  show ?case
  proof (cases "strchr ''0123456789'' (tok p) \<and> length number < MSG_SIZE
      \<and> index p < numTokens p")
    case True
    then show ?thesis
      using "1.IH"
      by (subst parseNumber_loop_trace.simps, subst parseNumber_loop.simps)
         (auto split: prod.splits)
  next
    case False
    then show ?thesis
      by (subst parseNumber_loop_trace.simps, subst parseNumber_loop.simps) auto
  qed
qed

lemma parseNumber_untrace: "untrace (parseNumber_trace p) = parseNumber p"
  using parseNumber_loop_untrace [of p "[]"]
  by (auto simp: untrace_def parseNumber_trace_def parseNumber_def split: prod.splits)

lemma untrace_bind:
  assumes "map_option untrace a = b"
    and "\<And>e p t. a = Some (e, p, t) \<Longrightarrow> map_option untrace (f e p) = g e p"
  shows "map_option untrace
           (case a of
              None \<Rightarrow> None
            | Some (e, p1, t1) \<Rightarrow>
                (case f e p1 of
                   None \<Rightarrow> None
                 | Some (e', p2, t2) \<Rightarrow> Some (e', p2, h t1 t2)))
         = (case b of None \<Rightarrow> None | Some (e, p') \<Rightarrow> g e p')"
proof (cases a)
  case None
  then show ?thesis using assms(1) by auto
next
  case (Some r)
  obtain e p t where r: "r = (e, p, t)" by (cases r) auto
  have "b = Some (e, p)" using assms(1) Some r by (auto simp: untrace_def)
  moreover have "map_option untrace (f e p) = g e p" using assms(2) Some r by blast
  ultimately show ?thesis using Some r
    by (cases "f e p") (auto simp: untrace_def)
qed

lemma parsers_untrace:
  shows "map_option untrace (parseAddition_trace n p) = parseAddition n p"
    and "map_option untrace (parseAddition_loop_trace n p x) = parseAddition_loop n p x"
    and "map_option untrace (parseMultiplication_trace n p) = parseMultiplication n p"
    and "map_option untrace (parseMultiplication_loop_trace n p x)
           = parseMultiplication_loop n p x"
    and "map_option untrace (parseParenthesis_trace n p) = parseParenthesis n p"
proof (induction n p and n p x and n p and n p x and n p
    rule: parseAddition_parseAddition_loop_parseMultiplication_parseMultiplication_loop_parseParenthesis.induct)
  case (2 n p)
  have "map_option untrace
      (case parseMultiplication_trace n p of
         None \<Rightarrow> None
       | Some (e, p1, t1) \<Rightarrow>
           (case parseAddition_loop_trace n p1 e of
              None \<Rightarrow> None
            | Some (e', p2, t2) \<Rightarrow> Some (e', p2, t1 @ t2)))
    = (case parseMultiplication n p of
         None \<Rightarrow> None
       | Some (e, p') \<Rightarrow> parseAddition_loop n p' e)"
  proof (rule untrace_bind [OF "2.IH"(1)])
    fix e p1 t
    assume "parseMultiplication_trace n p = Some (e, p1, t)"
    then have "parseMultiplication n p = Some (e, p1)"
      using "2.IH"(1) by (auto simp: untrace_def)
    then show "map_option untrace (parseAddition_loop_trace n p1 e) = parseAddition_loop n p1 e"
      using "2.IH"(2) by blast
  qed
  then show ?case by simp
next
  case (4 n p x)
  show ?case
  proof (cases "index p < numTokens p \<and> (tok p = CHR ''+'' \<or> tok p = CHR ''-'')")
    case True
    have "map_option untrace
        (case parseMultiplication_trace n (advance p) of
           None \<Rightarrow> None
         | Some (e, p1, t1) \<Rightarrow>
             (case parseAddition_loop_trace n p1 (createExpressionTree (tok p) 0 x e) of
                None \<Rightarrow> None
              | Some (e', p2, t2) \<Rightarrow> Some (e', p2, index (advance p) # t1 @ t2)))
      = (case parseMultiplication n (advance p) of
           None \<Rightarrow> None
         | Some (e, p') \<Rightarrow> parseAddition_loop n p' (createExpressionTree (tok p) 0 x e))"
    proof (rule untrace_bind [OF "4.IH"(1) [OF True]])
      fix e p1 t
      assume "parseMultiplication_trace n (advance p) = Some (e, p1, t)"
      then have "parseMultiplication n (advance p) = Some (e, p1)"
        using "4.IH"(1) [OF True] by (auto simp: untrace_def)
      then show "map_option untrace
          (parseAddition_loop_trace n p1 (createExpressionTree (tok p) 0 x e))
        = parseAddition_loop n p1 (createExpressionTree (tok p) 0 x e)"
        using "4.IH"(2) True by blast
    qed
    then show ?thesis using True by simp
  next
    case False
    then show ?thesis by (auto simp: untrace_def)
  qed
next
  case (6 n p)
  have "map_option untrace
      (case parseParenthesis_trace n p of
         None \<Rightarrow> None
       | Some (e, p1, t1) \<Rightarrow>
           (case parseMultiplication_loop_trace n p1 e of
              None \<Rightarrow> None
            | Some (e', p2, t2) \<Rightarrow> Some (e', p2, t1 @ t2)))
    = (case parseParenthesis n p of
         None \<Rightarrow> None
       | Some (e, p') \<Rightarrow> parseMultiplication_loop n p' e)"
  proof (rule untrace_bind [OF "6.IH"(1)])
    fix e p1 t
    assume "parseParenthesis_trace n p = Some (e, p1, t)"
    then have "parseParenthesis n p = Some (e, p1)"
      using "6.IH"(1) by (auto simp: untrace_def)
    then show "map_option untrace (parseMultiplication_loop_trace n p1 e)
        = parseMultiplication_loop n p1 e"
      using "6.IH"(2) by blast
  qed
  then show ?case by simp
next
  case (8 n p x)
  show ?case
  proof (cases "index p < numTokens p \<and> (tok p = CHR ''*'' \<or> tok p = CHR ''/'')")
    case True
    have "map_option untrace
        (case parseParenthesis_trace n (advance p) of
           None \<Rightarrow> None
         | Some (e, p1, t1) \<Rightarrow>
             (case parseMultiplication_loop_trace n p1 (createExpressionTree (tok p) 0 x e) of
                None \<Rightarrow> None
              | Some (e', p2, t2) \<Rightarrow> Some (e', p2, index (advance p) # t1 @ t2)))
      = (case parseParenthesis n (advance p) of
           None \<Rightarrow> None
         | Some (e, p') \<Rightarrow>
             parseMultiplication_loop n p' (createExpressionTree (tok p) 0 x e))"
    proof (rule untrace_bind [OF "8.IH"(1) [OF True]])
      fix e p1 t
      assume "parseParenthesis_trace n (advance p) = Some (e, p1, t)"
      then have "parseParenthesis n (advance p) = Some (e, p1)"
        using "8.IH"(1) [OF True] by (auto simp: untrace_def)
      then show "map_option untrace
          (parseMultiplication_loop_trace n p1 (createExpressionTree (tok p) 0 x e))
        = parseMultiplication_loop n p1 (createExpressionTree (tok p) 0 x e)"
        using "8.IH"(2) True by blast
    qed
    then show ?thesis using True by simp
  next
    case False
    then show ?thesis by (auto simp: untrace_def)
  qed
next
  case (10 n p)
  show ?case
  proof (cases "tok p = CHR ''(''")
    case True
    show ?thesis
    proof (cases "parseAddition_trace n (advance p)")
      case None
      then show ?thesis using "10.IH" True by auto
    next
      case (Some r)
      obtain e p1 t where r: "r = (e, p1, t)" by (cases r) auto
      have "parseAddition n (advance p) = Some (e, p1)"
        using "10.IH" [OF True] Some r by (auto simp: untrace_def)
      then show ?thesis using True Some r by (auto simp: untrace_def)
    qed
  next
    case False
    then show ?thesis by (simp add: parseNumber_untrace)
  qed
qed simp_all

text \<open>Every assignment to the index is an increment by one, below the end.\<close>

lemma increments_refl: "wf_parser p \<Longrightarrow> increments p [] p"
  by (simp add: increments_def wf_parser_def del: upt_Suc)

lemma upt_append_chain: "i \<le> j \<Longrightarrow> j \<le> k \<Longrightarrow> [i..<j] @ [j..<k] = [i..<k]"
  by (metis le_Suc_ex upt_add_eq_append)

lemma increments_trans:
  "increments p t1 q \<Longrightarrow> increments q t2 r \<Longrightarrow> increments p (t1 @ t2) r"
  unfolding increments_def
  using upt_append_chain [of "Suc (index p)" "Suc (index q)" "Suc (index r)"]
  by (simp del: upt_Suc)

lemma increments_advance:
  "wf_parser p \<Longrightarrow> index p < numTokens p \<Longrightarrow> increments p [index (advance p)] (advance p)"
  by (simp add: increments_def wf_parser_def advance_def upt_conv_Cons del: upt_Suc)

lemma increments_advance_tok:
  "wf_parser p \<Longrightarrow> tok p = c \<Longrightarrow> c \<noteq> NUL \<Longrightarrow> increments p [index (advance p)] (advance p)"
  by (auto intro: increments_advance tok_not_NUL_less)

lemma increments_cursor_le: "increments p tr p' \<Longrightarrow> cursor_le p p'"
  by (simp add: increments_def cursor_le_def)

lemma increments_wf: "wf_parser p \<Longrightarrow> increments p tr p' \<Longrightarrow> wf_parser p'"
  by (auto simp: increments_def wf_parser_def)

lemma parseNumber_loop_trace_stop:
  "\<not> (strchr ''0123456789'' (tok p) \<and> length number < MSG_SIZE \<and> index p < numTokens p) \<Longrightarrow>
   parseNumber_loop_trace p number = (p, number, [])"
  by (subst parseNumber_loop_trace.simps) (erule if_not_P)

lemma parseNumber_loop_trace_step:
  "strchr ''0123456789'' (tok p) \<and> length number < MSG_SIZE \<and> index p < numTokens p \<Longrightarrow>
   parseNumber_loop_trace p number =
     (case parseNumber_loop_trace (advance p) (number @ [tok p]) of
        (p', number', tr) \<Rightarrow> (p', number', index (advance p) # tr))"
  by (subst parseNumber_loop_trace.simps) (erule if_P)

lemma parseNumber_loop_increments:
  "wf_parser p \<Longrightarrow> parseNumber_loop_trace p number = (p', number', tr) \<Longrightarrow>
   increments p tr p'"
proof (induction p number arbitrary: tr rule: parseNumber_loop_trace.induct)
  case (1 p number)
  show ?case
  proof (cases "strchr ''0123456789'' (tok p) \<and> length number < MSG_SIZE
      \<and> index p < numTokens p")
    case True
    then have step: "increments p [index (advance p)] (advance p)"
      using "1.prems"(1) by (simp add: increments_advance)
    then have w: "wf_parser (advance p)" using "1.prems"(1) by (rule increments_wf [rotated])
    from "1.prems"(2) parseNumber_loop_trace_step [OF True] obtain tr1 where
      r: "parseNumber_loop_trace (advance p) (number @ [tok p]) = (p', number', tr1)"
      and tr: "tr = index (advance p) # tr1"
      by (auto split: prod.splits)
    have "increments (advance p) tr1 p'" using "1.IH" True w r by blast
    with step have "increments p ([index (advance p)] @ tr1) p'" by (rule increments_trans)
    then show ?thesis using tr by simp
  next
    case False
    then have "p' = p" and "tr = []"
      using "1.prems"(2) parseNumber_loop_trace_stop [OF False] by simp_all
    then show ?thesis using "1.prems"(1) by (simp add: increments_refl)
  qed
qed

lemma parseNumber_increments:
  "wf_parser p \<Longrightarrow> parseNumber_trace p = (e, p', tr) \<Longrightarrow> increments p tr p'"
  by (auto simp: parseNumber_trace_def split: prod.splits dest: parseNumber_loop_increments)

lemma parsers_increments:
  shows "wf_parser p \<Longrightarrow> parseAddition_trace n p = Some (e, p', tr) \<Longrightarrow> increments p tr p'"
    and "wf_parser p \<Longrightarrow> parseAddition_loop_trace n p x = Some (e, p', tr) \<Longrightarrow>
           increments p tr p'"
    and "wf_parser p \<Longrightarrow> parseMultiplication_trace n p = Some (e, p', tr) \<Longrightarrow>
           increments p tr p'"
    and "wf_parser p \<Longrightarrow> parseMultiplication_loop_trace n p x = Some (e, p', tr) \<Longrightarrow>
           increments p tr p'"
    and "wf_parser p \<Longrightarrow> parseParenthesis_trace n p = Some (e, p', tr) \<Longrightarrow>
           increments p tr p'"
proof (induction n p and n p x and n p and n p x and n p
    arbitrary: e p' tr and e p' tr and e p' tr and e p' tr and e p' tr
    rule: parseAddition_trace_parseAddition_loop_trace_parseMultiplication_trace_parseMultiplication_loop_trace_parseParenthesis_trace.induct)
  case (2 n p)
  from "2.prems"(2) obtain e1 p1 t1 t2 where
    m: "parseMultiplication_trace n p = Some (e1, p1, t1)"
    and l: "parseAddition_loop_trace n p1 e1 = Some (e, p', t2)"
    and tr: "tr = t1 @ t2"
    by (auto split: option.splits)
  have c1: "increments p t1 p1" using "2.IH"(1) "2.prems"(1) m by blast
  then have "wf_parser p1" using "2.prems"(1) by (rule increments_wf [rotated])
  then have "increments p1 t2 p'" using "2.IH"(2) m l by blast
  with c1 show ?case unfolding tr by (rule increments_trans)
next
  case (4 n p x)
  show ?case
  proof (cases "index p < numTokens p \<and> (tok p = CHR ''+'' \<or> tok p = CHR ''-'')")
    case True
    with "4.prems"(2) obtain e1 p1 t1 t2 where
      m: "parseMultiplication_trace n (advance p) = Some (e1, p1, t1)"
      and l: "parseAddition_loop_trace n p1 (createExpressionTree (tok p) 0 x e1)
                = Some (e, p', t2)"
      and tr: "tr = [index (advance p)] @ t1 @ t2"
      by (auto split: option.splits)
    have c0: "increments p [index (advance p)] (advance p)"
      using True "4.prems"(1) by (simp add: increments_advance)
    then have w0: "wf_parser (advance p)" using "4.prems"(1) by (rule increments_wf [rotated])
    have c1: "increments (advance p) t1 p1" using "4.IH"(1) True w0 m by blast
    then have "wf_parser p1" using w0 by (rule increments_wf [rotated])
    then have "increments p1 t2 p'" using "4.IH"(2) True m l by blast
    with c0 c1 show ?thesis unfolding tr by (blast intro: increments_trans)
  next
    case False
    with "4.prems" show ?thesis by (auto simp: increments_refl)
  qed
next
  case (6 n p)
  from "6.prems"(2) obtain e1 p1 t1 t2 where
    m: "parseParenthesis_trace n p = Some (e1, p1, t1)"
    and l: "parseMultiplication_loop_trace n p1 e1 = Some (e, p', t2)"
    and tr: "tr = t1 @ t2"
    by (auto split: option.splits)
  have c1: "increments p t1 p1" using "6.IH"(1) "6.prems"(1) m by blast
  then have "wf_parser p1" using "6.prems"(1) by (rule increments_wf [rotated])
  then have "increments p1 t2 p'" using "6.IH"(2) m l by blast
  with c1 show ?case unfolding tr by (rule increments_trans)
next
  case (8 n p x)
  show ?case
  proof (cases "index p < numTokens p \<and> (tok p = CHR ''*'' \<or> tok p = CHR ''/'')")
    case True
    with "8.prems"(2) obtain e1 p1 t1 t2 where
      m: "parseParenthesis_trace n (advance p) = Some (e1, p1, t1)"
      and l: "parseMultiplication_loop_trace n p1 (createExpressionTree (tok p) 0 x e1)
                = Some (e, p', t2)"
      and tr: "tr = [index (advance p)] @ t1 @ t2"
      by (auto split: option.splits)
    have c0: "increments p [index (advance p)] (advance p)"
      using True "8.prems"(1) by (simp add: increments_advance)
    then have w0: "wf_parser (advance p)" using "8.prems"(1) by (rule increments_wf [rotated])
    have c1: "increments (advance p) t1 p1" using "8.IH"(1) True w0 m by blast
    then have "wf_parser p1" using w0 by (rule increments_wf [rotated])
    then have "increments p1 t2 p'" using "8.IH"(2) True m l by blast
    with c0 c1 show ?thesis unfolding tr by (blast intro: increments_trans)
  next
    case False
    with "8.prems" show ?thesis by (auto simp: increments_refl)
  qed
next
  case (10 n p)
  show ?case
  proof (cases "tok p = CHR ''(''")
    case True
    with "10.prems"(2) obtain p1 t1 where
      a: "parseAddition_trace n (advance p) = Some (e, p1, t1)"
      and r: "(tok p1 = CHR '')'' \<and> p' = advance p1
                \<and> tr = [index (advance p)] @ t1 @ [index (advance p1)]) \<or>
              (tok p1 \<noteq> CHR '')'' \<and> p' = p1 \<and> tr = [index (advance p)] @ t1 @ [])"
      by (auto split: option.splits if_splits)
    have c0: "increments p [index (advance p)] (advance p)"
      using True "10.prems"(1) by (simp add: increments_advance_tok NUL_simps)
    then have w0: "wf_parser (advance p)" using "10.prems"(1) by (rule increments_wf [rotated])
    have c1: "increments (advance p) t1 p1" using "10.IH" True w0 a by blast
    then have w1: "wf_parser p1" using w0 by (rule increments_wf [rotated])
    from r show ?thesis
    proof
      assume h: "tok p1 = CHR '')'' \<and> p' = advance p1
        \<and> tr = [index (advance p)] @ t1 @ [index (advance p1)]"
      then have "increments p1 [index (advance p1)] p'"
        using w1 by (simp add: increments_advance_tok NUL_simps)
      with c0 c1 show ?thesis using h by (blast intro: increments_trans)
    next
      assume h: "tok p1 \<noteq> CHR '')'' \<and> p' = p1 \<and> tr = [index (advance p)] @ t1 @ []"
      then have "increments p1 [] p'" using w1 by (simp add: increments_refl)
      with c0 c1 show ?thesis using h by (blast intro: increments_trans)
    qed
  next
    case False
    with "10.prems" show ?thesis by (auto dest: parseNumber_increments)
  qed
qed simp_all

lemma increments_monotone:
  assumes "wf_parser p" and "increments p tr p'"
  shows "sorted (index p # tr)" and "\<forall>i \<in> set (index p # tr). i \<le> length (tokens p)"
    and "last (index p # tr) = index p'"
proof -
  from assms(2) have tr: "index p # tr = [index p..<Suc (index p')]"
    and le: "index p' \<le> numTokens p" "index p \<le> index p'"
    by (simp_all add: increments_def upt_conv_Cons del: upt_Suc)
  show "sorted (index p # tr)" unfolding tr by (rule sorted_upt)
  show "\<forall>i \<in> set (index p # tr). i \<le> length (tokens p)"
    unfolding tr using le assms(1) by (auto simp: wf_parser_def simp del: upt_Suc)
  show "last (index p # tr) = index p'" unfolding tr using le by simp
qed

section \<open>Parser: where the loops stop\<close>

lemma parseMultiplication_loop_stops:
  "parseMultiplication_loop n p x = Some (e, p') \<Longrightarrow> \<not> at_multiplicative p'"
proof (induction n arbitrary: p x)
  case 0
  then show ?case by simp
next
  case (Suc n)
  show ?case
  proof (cases "index p < numTokens p \<and> (tok p = CHR ''*'' \<or> tok p = CHR ''/'')")
    case True
    with Suc.prems obtain r p1 where
      "parseMultiplication_loop n p1 (createExpressionTree (tok p) 0 x r) = Some (e, p')"
      by (auto split: option.splits)
    then show ?thesis by (rule Suc.IH)
  next
    case False
    with Suc.prems show ?thesis by (auto simp: at_multiplicative_def)
  qed
qed

lemma parseMultiplication_stops:
  "parseMultiplication n p = Some (e, p') \<Longrightarrow> \<not> at_multiplicative p'"
  by (cases n) (auto split: option.splits dest: parseMultiplication_loop_stops)

lemma parseAddition_loop_stops:
  "\<not> at_multiplicative p \<Longrightarrow> parseAddition_loop n p x = Some (e, p') \<Longrightarrow>
   \<not> at_multiplicative p' \<and> \<not> at_additive p'"
proof (induction n arbitrary: p x)
  case 0
  then show ?case by simp
next
  case (Suc n)
  show ?case
  proof (cases "index p < numTokens p \<and> (tok p = CHR ''+'' \<or> tok p = CHR ''-'')")
    case True
    with Suc.prems(2) obtain r p1 where
      m: "parseMultiplication n (advance p) = Some (r, p1)"
      and l: "parseAddition_loop n p1 (createExpressionTree (tok p) 0 x r) = Some (e, p')"
      by (auto split: option.splits)
    have "\<not> at_multiplicative p1" using m by (rule parseMultiplication_stops)
    then show ?thesis using l by (rule Suc.IH)
  next
    case False
    with Suc.prems show ?thesis by (auto simp: at_additive_def)
  qed
qed

lemma parseAddition_stops:
  "parseAddition n p = Some (e, p') \<Longrightarrow> \<not> at_multiplicative p' \<and> \<not> at_additive p'"
  by (cases n)
    (auto split: option.splits dest: parseMultiplication_stops parseAddition_loop_stops)

section \<open>Parser: expressions without parentheses\<close>

lemma tok_in_tokens: "tok p \<in> set (tokens p) \<or> tok p = NUL"
  by (simp add: tok_def)

lemma parseNumber_no_additive: "parseNumber p = (e, p') \<Longrightarrow> no_additive e"
  by (auto simp: parseNumber_def createExpressionTree_def split: prod.splits)

lemma parseParenthesis_no_paren:
  assumes "CHR ''('' \<notin> set (tokens p)"
  shows "parseParenthesis (Suc n) p = Some (parseNumber p)"
proof -
  have "tok p \<noteq> CHR ''(''" using assms tok_in_tokens [of p] by (auto simp: NUL_def)
  then show ?thesis by simp
qed

lemma parseMultiplication_loop_no_additive:
  "wf_parser p \<Longrightarrow> CHR ''('' \<notin> set (tokens p) \<Longrightarrow> no_additive x \<Longrightarrow>
   parseMultiplication_loop n p x = Some (e, p') \<Longrightarrow> no_additive e"
proof (induction n arbitrary: p x)
  case 0
  then show ?case by simp
next
  case (Suc n)
  show ?case
  proof (cases "index p < numTokens p \<and> (tok p = CHR ''*'' \<or> tok p = CHR ''/'')")
    case True
    with Suc.prems(4) obtain r p1 where
      q: "parseParenthesis n (advance p) = Some (r, p1)"
      and l: "parseMultiplication_loop n p1 (Node (tok p) 0 x r) = Some (e, p')"
      by (auto simp: createExpressionTree_def split: option.splits)
    have c0: "cursor_le p (advance p)" using True Suc.prems(1) by (simp add: cursor_le_advance)
    then have w0: "wf_parser (advance p)" using Suc.prems(1) by (rule cursor_le_wf [rotated])
    have t0: "CHR ''('' \<notin> set (tokens (advance p))" using Suc.prems(2) by (simp add: advance_def)
    from q obtain m where n: "n = Suc m" by (cases n) auto
    have "parseNumber (advance p) = (r, p1)"
      using q parseParenthesis_no_paren [OF t0, of m] by (simp add: n)
    then have r: "no_additive r" by (rule parseNumber_no_additive)
    have c1: "cursor_le (advance p) p1" using w0 q by (rule parsers_cursor(5))
    then have w1: "wf_parser p1" using w0 by (rule cursor_le_wf [rotated])
    have t1: "CHR ''('' \<notin> set (tokens p1)" using c1 t0 by (simp add: cursor_le_def)
    have "no_additive (Node (tok p) 0 x r)" using True r Suc.prems(3) by auto
    with w1 t1 show ?thesis using l by (rule Suc.IH)
  next
    case False
    with Suc.prems show ?thesis by auto
  qed
qed

lemma parseMultiplication_no_additive:
  assumes "wf_parser p" and "CHR ''('' \<notin> set (tokens p)"
    and "parseMultiplication n p = Some (e, p')"
  shows "no_additive e"
proof -
  from assms(3) obtain m where n: "n = Suc m" by (cases n) auto
  with assms(3) obtain r p1 where
    q: "parseParenthesis m p = Some (r, p1)"
    and l: "parseMultiplication_loop m p1 r = Some (e, p')"
    by (auto split: option.splits)
  from q obtain k where m: "m = Suc k" by (cases m) auto
  have "parseNumber p = (r, p1)"
    using q parseParenthesis_no_paren [OF assms(2), of k] by (simp add: m)
  then have r: "no_additive r" by (rule parseNumber_no_additive)
  have c1: "cursor_le p p1" using assms(1) q by (rule parsers_cursor(5))
  then have w1: "wf_parser p1" using assms(1) by (rule cursor_le_wf [rotated])
  have t1: "CHR ''('' \<notin> set (tokens p1)" using c1 assms(2) by (simp add: cursor_le_def)
  from w1 t1 r l show ?thesis by (rule parseMultiplication_loop_no_additive)
qed

text \<open>
  Numbers, products and sums written as tokens are parsed into their left-associative
  trees, from any position in a token string.
\<close>

lemma tok_at_Cons [simp]: "tok (at_cursor pre (c # s)) = c"
  by (simp add: tok_def at_cursor_def)

lemma tok_at_Nil [simp]: "tok (at_cursor pre []) = NUL"
  by (simp add: tok_def at_cursor_def)

lemma advance_at [simp]: "advance (at_cursor pre (c # s)) = at_cursor (pre @ [c]) s"
  by (simp add: advance_def at_cursor_def)

lemma index_at [simp]:
  "index (at_cursor pre s) < numTokens (at_cursor pre s) \<longleftrightarrow> s \<noteq> []"
  by (simp add: at_cursor_def)

lemma new_parser_at: "new_parser toks = at_cursor [] toks"
  by (simp add: new_parser_def at_cursor_def)

lemma strchr_digits: "strchr ''0123456789'' c \<longleftrightarrow> isdigit c \<or> c = NUL"
  by (simp add: strchr_def isdigit_def)

lemma parseNumber_loop_digits_run:
  "\<forall>c \<in> set d. isdigit c \<Longrightarrow> length number + length d \<le> MSG_SIZE \<Longrightarrow> ends_number post \<Longrightarrow>
   parseNumber_loop (at_cursor pre (d @ post)) number = (at_cursor (pre @ d) post, number @ d)"
proof (induction d arbitrary: pre number)
  case Nil
  have "\<not> (strchr ''0123456789'' (tok (at_cursor pre post)) \<and> length number < MSG_SIZE
      \<and> index (at_cursor pre post) < numTokens (at_cursor pre post))"
    using Nil.prems(3) by (cases post) (auto simp: ends_number_def strchr_digits)
  then show ?case using parseNumber_loop_stop by simp
next
  case (Cons c d)
  have "strchr ''0123456789'' (tok (at_cursor pre ((c # d) @ post))) \<and> length number < MSG_SIZE
      \<and> index (at_cursor pre ((c # d) @ post)) < numTokens (at_cursor pre ((c # d) @ post))"
    using Cons.prems by (simp add: strchr_digits)
  then have "parseNumber_loop (at_cursor pre ((c # d) @ post)) number
      = parseNumber_loop (at_cursor (pre @ [c]) (d @ post)) (number @ [c])"
    using parseNumber_loop_step [of "at_cursor pre ((c # d) @ post)" number] by simp
  also have "\<dots> = (at_cursor ((pre @ [c]) @ d) post, (number @ [c]) @ d)"
    using Cons.prems by (intro Cons.IH) simp_all
  finally show ?case by simp
qed

lemma atoi_digits: "\<forall>c \<in> set d. isdigit c \<Longrightarrow> takeWhile isdigit d = d"
  by (simp add: takeWhile_eq_all_conv)

lemma parseNumber_number:
  assumes "is_number d" and "ends_number post"
  shows "parseNumber (at_cursor pre (d @ post)) = (number_node d, at_cursor (pre @ d) post)"
proof -
  have "parseNumber_loop (at_cursor pre (d @ post)) [] = (at_cursor (pre @ d) post, [] @ d)"
    using assms by (intro parseNumber_loop_digits_run) (simp_all add: is_number_def)
  then show ?thesis
    by (simp add: parseNumber_def createExpressionTree_def number_node_def)
qed

lemma parseParenthesis_number:
  assumes "is_number d" and "ends_number post"
  shows "parseParenthesis (Suc n) (at_cursor pre (d @ post))
           = Some (number_node d, at_cursor (pre @ d) post)"
proof -
  obtain c d' where d: "d = c # d'" and "isdigit c"
    using assms(1) by (cases d) (auto simp: is_number_def)
  then have "tok (at_cursor pre (d @ post)) \<noteq> CHR ''(''" by (auto simp: isdigit_def)
  then show ?thesis using parseNumber_number [OF assms] by simp
qed

lemma ends_number_render_ops:
  "\<forall>(op, d') \<in> set ods. (op = CHR ''*'' \<or> op = CHR ''/'') \<and> is_number d' \<Longrightarrow>
   ends_product post \<Longrightarrow> ends_number (render_ops ods @ post)"
  by (cases ods) (auto simp: ends_number_def ends_product_def isdigit_def NUL_def)

lemma parseMultiplication_loop_chain:
  "\<forall>(op, d) \<in> set ods. (op = CHR ''*'' \<or> op = CHR ''/'') \<and> is_number d \<Longrightarrow>
   ends_product post \<Longrightarrow> length (render_ops ods) < n \<Longrightarrow>
   parseMultiplication_loop n (at_cursor pre (render_ops ods @ post)) x =
     Some (fold_terms x (map (\<lambda>(op, d). (op, number_node d)) ods),
           at_cursor (pre @ render_ops ods) post)"
proof (induction ods arbitrary: pre x n)
  case Nil
  then obtain m where n: "n = Suc m" by (cases n) auto
  have "\<not> (index (at_cursor pre post) < numTokens (at_cursor pre post) \<and>
      (tok (at_cursor pre post) = CHR ''*'' \<or> tok (at_cursor pre post) = CHR ''/''))"
    using Nil.prems(2) by (cases post) (auto simp: ends_product_def)
  then show ?case using n by (auto simp: fold_terms_def)
next
  case (Cons a ods)
  obtain op d where a: "a = (op, d)" by (cases a)
  from Cons.prems(1) a have op: "op = CHR ''*'' \<or> op = CHR ''/''" and d: "is_number d"
    and rest: "\<forall>(op, d) \<in> set ods. (op = CHR ''*'' \<or> op = CHR ''/'') \<and> is_number d"
    by auto
  from Cons.prems(3) a obtain m k where n: "n = Suc m" and m: "m = Suc k"
    and len: "length (render_ops ods) < m"
    by (cases n; cases "n - 1") auto
  have en: "ends_number (render_ops ods @ post)"
    using rest Cons.prems(2) by (rule ends_number_render_ops)
  have paren: "parseParenthesis m (at_cursor (pre @ [op]) (d @ render_ops ods @ post))
      = Some (number_node d, at_cursor ((pre @ [op]) @ d) (render_ops ods @ post))"
    unfolding m using d en by (rule parseParenthesis_number)
  have loop: "parseMultiplication_loop m
      (at_cursor ((pre @ [op]) @ d) (render_ops ods @ post)) (Node op 0 x (number_node d))
    = Some (fold_terms (Node op 0 x (number_node d)) (map (\<lambda>(op, d). (op, number_node d)) ods),
            at_cursor (((pre @ [op]) @ d) @ render_ops ods) post)"
    using rest Cons.prems(2) len by (rule Cons.IH)
  show ?case
    using op paren loop
    by (simp add: a n createExpressionTree_def fold_terms_Cons)
qed


lemma parseMultiplication_product:
  assumes "is_product d ods" and "ends_product post" and "length (render_ops ods) + 2 \<le> n"
  shows "parseMultiplication n (at_cursor pre (d @ render_ops ods @ post)) =
           Some (tree_product d ods, at_cursor (pre @ d @ render_ops ods) post)"
proof -
  from assms(3) obtain m k where n: "n = Suc m" and m: "m = Suc k"
    and len: "length (render_ops ods) < m"
    by (cases n; cases "n - 1") auto
  from assms(1) have d: "is_number d"
    and ods: "\<forall>(op, d) \<in> set ods. (op = CHR ''*'' \<or> op = CHR ''/'') \<and> is_number d"
    by (auto simp: is_product_def)
  have en: "ends_number (render_ops ods @ post)"
    using ods assms(2) by (rule ends_number_render_ops)
  have paren: "parseParenthesis m (at_cursor pre (d @ render_ops ods @ post))
      = Some (number_node d, at_cursor (pre @ d) (render_ops ods @ post))"
    unfolding m using d en by (rule parseParenthesis_number)
  have loop: "parseMultiplication_loop m (at_cursor (pre @ d) (render_ops ods @ post))
      (number_node d)
    = Some (fold_terms (number_node d) (map (\<lambda>(op, d). (op, number_node d)) ods),
            at_cursor ((pre @ d) @ render_ops ods) post)"
    using ods assms(2) len by (rule parseMultiplication_loop_chain)
  show ?thesis using paren loop by (simp add: n tree_product_def)
qed

lemma ends_product_render_terms:
  "\<forall>(op, d, ods) \<in> set ts. (op = CHR ''+'' \<or> op = CHR ''-'') \<and> is_product d ods \<Longrightarrow>
   ends_sum post \<Longrightarrow> ends_product (render_terms ts @ post)"
  by (cases ts) (auto simp: ends_product_def ends_sum_def isdigit_def NUL_def)

lemma parseAddition_loop_chain:
  "\<forall>(op, d, ods) \<in> set ts. (op = CHR ''+'' \<or> op = CHR ''-'') \<and> is_product d ods \<Longrightarrow>
   ends_sum post \<Longrightarrow> length (render_terms ts) < n \<Longrightarrow>
   parseAddition_loop n (at_cursor pre (render_terms ts @ post)) x =
     Some (fold_terms x (map (\<lambda>(op, d, ods). (op, tree_product d ods)) ts),
           at_cursor (pre @ render_terms ts) post)"
proof (induction ts arbitrary: pre x n)
  case Nil
  then obtain m where n: "n = Suc m" by (cases n) auto
  have "\<not> (index (at_cursor pre post) < numTokens (at_cursor pre post) \<and>
      (tok (at_cursor pre post) = CHR ''+'' \<or> tok (at_cursor pre post) = CHR ''-''))"
    using Nil.prems(2) by (cases post) (auto simp: ends_sum_def)
  then show ?case using n by (auto simp: fold_terms_def)
next
  case (Cons a ts)
  obtain op d ods where a: "a = (op, d, ods)" by (cases a)
  from Cons.prems(1) a have op: "op = CHR ''+'' \<or> op = CHR ''-''" and d: "is_product d ods"
    and rest: "\<forall>(op, d, ods) \<in> set ts. (op = CHR ''+'' \<or> op = CHR ''-'') \<and> is_product d ods"
    by auto
  from d have "d \<noteq> []" by (simp add: is_product_def is_number_def)
  then have "1 \<le> length d" by (cases d) auto
  with Cons.prems(3) a obtain m where n: "n = Suc m"
    and len: "length (render_terms ts) < m" and len2: "length (render_ops ods) + 2 \<le> m"
    by (cases n) auto
  have ep: "ends_product (render_terms ts @ post)"
    using rest Cons.prems(2) by (rule ends_product_render_terms)
  have mult: "parseMultiplication m
      (at_cursor (pre @ [op]) (d @ render_ops ods @ render_terms ts @ post))
    = Some (tree_product d ods,
            at_cursor ((pre @ [op]) @ d @ render_ops ods) (render_terms ts @ post))"
    using d ep len2 by (rule parseMultiplication_product)
  have loop: "parseAddition_loop m
      (at_cursor ((pre @ [op]) @ d @ render_ops ods) (render_terms ts @ post))
      (Node op 0 x (tree_product d ods))
    = Some (fold_terms (Node op 0 x (tree_product d ods))
              (map (\<lambda>(op, d, ods). (op, tree_product d ods)) ts),
            at_cursor (((pre @ [op]) @ d @ render_ops ods) @ render_terms ts) post)"
    using rest Cons.prems(2) len by (rule Cons.IH)
  show ?case
    using op mult loop
    by (simp add: a n createExpressionTree_def fold_terms_Cons)
qed

lemma ends_sum_Nil: "ends_sum []" and ends_product_Nil: "ends_product []"
  by (simp_all add: ends_sum_def ends_product_def)

lemma parse_sum_of_products:
  assumes "is_product d ods"
    and "\<forall>(op, d, ods) \<in> set ts. (op = CHR ''+'' \<or> op = CHR ''-'') \<and> is_product d ods"
  shows "parse (d @ render_ops ods @ render_terms ts) =
           Some (fold_terms (tree_product d ods)
                   (map (\<lambda>(op, d, ods). (op, tree_product d ods)) ts))"
proof -
  let ?toks = "d @ render_ops ods @ render_terms ts"
  obtain m where n: "3 * length ?toks + 3 = Suc m" by simp
  then have len: "length (render_terms ts) < m" and len2: "length (render_ops ods) + 2 \<le> m"
    by simp_all
  have ep: "ends_product (render_terms ts @ [])"
    using assms(2) ends_sum_Nil by (rule ends_product_render_terms)
  have mult: "parseMultiplication m (at_cursor [] (d @ render_ops ods @ render_terms ts @ []))
    = Some (tree_product d ods, at_cursor ([] @ d @ render_ops ods) (render_terms ts @ []))"
    using assms(1) ep len2 by (rule parseMultiplication_product)
  have loop: "parseAddition_loop m (at_cursor ([] @ d @ render_ops ods) (render_terms ts @ []))
      (tree_product d ods)
    = Some (fold_terms (tree_product d ods) (map (\<lambda>(op, d, ods). (op, tree_product d ods)) ts),
            at_cursor (([] @ d @ render_ops ods) @ render_terms ts) [])"
    using assms(2) ends_sum_Nil len by (rule parseAddition_loop_chain)
  have "parseAddition (Suc m) (at_cursor [] ?toks)
    = Some (fold_terms (tree_product d ods) (map (\<lambda>(op, d, ods). (op, tree_product d ods)) ts),
            at_cursor (([] @ d @ render_ops ods) @ render_terms ts) [])"
    using mult loop by simp
  moreover have "parseAddition (3 * length ?toks + 3) (new_parser ?toks)
    = parseAddition (Suc m) (at_cursor [] ?toks)"
    by (simp only: n new_parser_at)
  ultimately show ?thesis by (simp only: parse_def option.map fst_conv)
qed

lemma render_terms_numbers:
  "render_terms (map (\<lambda>(op, d). (op, d, [])) ods) = render_ops ods"
  by (induction ods) auto

lemma parse_chain:
  assumes "is_number d" and "\<forall>(op, d') \<in> set ods. is_number d'"
    and "(\<forall>(op, d') \<in> set ods. op = CHR ''+'' \<or> op = CHR ''-'') \<or>
         (\<forall>(op, d') \<in> set ods. op = CHR ''*'' \<or> op = CHR ''/'')"
  shows "parse (d @ render_ops ods) =
           Some (fold_terms (number_node d) (map (\<lambda>(op, d). (op, number_node d)) ods))"
  using assms(3)
proof
  assume mul: "\<forall>(op, d') \<in> set ods. op = CHR ''*'' \<or> op = CHR ''/''"
  have "is_product d ods" using assms(1,2) mul by (auto simp: is_product_def)
  then have "parse (d @ render_ops ods @ render_terms []) =
      Some (fold_terms (tree_product d ods) (map (\<lambda>(op, d, ods). (op, tree_product d ods)) []))"
    by (rule parse_sum_of_products) simp
  then show ?thesis by (simp add: fold_terms_def tree_product_def)
next
  assume add: "\<forall>(op, d') \<in> set ods. op = CHR ''+'' \<or> op = CHR ''-''"
  let ?ts = "map (\<lambda>(op, d). (op, d, [])) ods"
  have "is_product d []" using assms(1) by (simp add: is_product_def)
  moreover have "\<forall>(op, d, ods) \<in> set ?ts. (op = CHR ''+'' \<or> op = CHR ''-'') \<and> is_product d ods"
    using assms(2) add by (auto simp: is_product_def)
  ultimately have P: "parse (d @ render_ops [] @ render_terms ?ts) =
      Some (fold_terms (tree_product d [])
              (map (\<lambda>(op, d, ods). (op, tree_product d ods)) ?ts))"
    by (rule parse_sum_of_products)
  have tr: "map (\<lambda>(op, d, ods). (op, tree_product d ods)) ?ts
      = map (\<lambda>(op, d). (op, number_node d)) ods"
    by (induction ods) (auto simp: tree_product_def fold_terms_def)
  have tp: "tree_product d [] = number_node d"
    by (simp add: tree_product_def fold_terms_def)
  show ?thesis using P unfolding tr render_terms_numbers tp by simp
qed

section \<open>The claims about the parser\<close>

text \<open>
  C6. Parse-cursor invariant. Entered with the index within \<open>[0, length]\<close> of the
  token stream, each of the four sub-parsers (and each of the two loops inside them)
  returns with the same stream and an index that is not smaller and still within
  \<open>[0, length]\<close>. And throughout the call: the values assigned to the index during
  the call, all nested calls included, are \<open>index + 1\<close>, \<open>index + 2\<close>, ... up to the
  index it returns with, in this order. So every assignment is an increment by one,
  the index never decreases at any point of the parse, and it never leaves the range.
\<close>

theorem cursor_invariant:
  assumes "wf_parser p"
  shows "(parseAddition n p = Some (e, p') \<longrightarrow> cursor_le p p') \<and>
         (parseMultiplication n p = Some (e, p') \<longrightarrow> cursor_le p p') \<and>
         (parseParenthesis n p = Some (e, p') \<longrightarrow> cursor_le p p') \<and>
         (parseNumber p = (e, p') \<longrightarrow> cursor_le p p') \<and>
         (parseAddition_loop n p x = Some (e, p') \<longrightarrow> cursor_le p p') \<and>
         (parseMultiplication_loop n p x = Some (e, p') \<longrightarrow> cursor_le p p') \<and>
         (cursor_le p p' \<longrightarrow>
            index p \<le> index p' \<and> index p' \<le> length (tokens p') \<and> wf_parser p') \<and>
         wf_parser (new_parser toks) \<and>
         map_option untrace (parseAddition_trace n p) = parseAddition n p \<and>
         map_option untrace (parseMultiplication_trace n p) = parseMultiplication n p \<and>
         map_option untrace (parseParenthesis_trace n p) = parseParenthesis n p \<and>
         untrace (parseNumber_trace p) = parseNumber p \<and>
         map_option untrace (parseAddition_loop_trace n p x) = parseAddition_loop n p x \<and>
         map_option untrace (parseMultiplication_loop_trace n p x)
           = parseMultiplication_loop n p x \<and>
         (parseAddition_trace n p = Some (e, p', tr) \<longrightarrow> increments p tr p') \<and>
         (parseMultiplication_trace n p = Some (e, p', tr) \<longrightarrow> increments p tr p') \<and>
         (parseParenthesis_trace n p = Some (e, p', tr) \<longrightarrow> increments p tr p') \<and>
         (parseNumber_trace p = (e, p', tr) \<longrightarrow> increments p tr p') \<and>
         (parseAddition_loop_trace n p x = Some (e, p', tr) \<longrightarrow> increments p tr p') \<and>
         (parseMultiplication_loop_trace n p x = Some (e, p', tr) \<longrightarrow> increments p tr p') \<and>
         (increments p tr p' \<longrightarrow>
            tr = [Suc (index p)..<Suc (index p')] \<and> sorted (index p # tr) \<and>
            (\<forall>i \<in> set (index p # tr). i \<le> length (tokens p)) \<and>
            last (index p # tr) = index p')"
proof (intro conjI impI)
  show "wf_parser (new_parser toks)" by (rule wf_new_parser)
  show "cursor_le p p'" if "parseAddition n p = Some (e, p')"
    using assms that by (rule parsers_cursor(1))
  show "cursor_le p p'" if "parseMultiplication n p = Some (e, p')"
    using assms that by (rule parsers_cursor(3))
  show "cursor_le p p'" if "parseParenthesis n p = Some (e, p')"
    using assms that by (rule parsers_cursor(5))
  show "cursor_le p p'" if "parseNumber p = (e, p')"
    using assms that by (rule parseNumber_cursor)
  show "cursor_le p p'" if "parseAddition_loop n p x = Some (e, p')"
    using assms that by (rule parsers_cursor(2))
  show "cursor_le p p'" if "parseMultiplication_loop n p x = Some (e, p')"
    using assms that by (rule parsers_cursor(4))
  show "index p \<le> index p'" if "cursor_le p p'"
    using that by (simp add: cursor_le_def)
  show "index p' \<le> length (tokens p')" if "cursor_le p p'"
    using assms that by (simp add: cursor_le_def wf_parser_def)
  show "wf_parser p'" if "cursor_le p p'"
    using assms that by (rule cursor_le_wf)
  show "map_option untrace (parseAddition_trace n p) = parseAddition n p"
    by (rule parsers_untrace(1))
  show "map_option untrace (parseMultiplication_trace n p) = parseMultiplication n p"
    by (rule parsers_untrace(3))
  show "map_option untrace (parseParenthesis_trace n p) = parseParenthesis n p"
    by (rule parsers_untrace(5))
  show "untrace (parseNumber_trace p) = parseNumber p"
    by (rule parseNumber_untrace)
  show "map_option untrace (parseAddition_loop_trace n p x) = parseAddition_loop n p x"
    by (rule parsers_untrace(2))
  show "map_option untrace (parseMultiplication_loop_trace n p x)
      = parseMultiplication_loop n p x"
    by (rule parsers_untrace(4))
  show "increments p tr p'" if "parseAddition_trace n p = Some (e, p', tr)"
    using assms that by (rule parsers_increments(1))
  show "increments p tr p'" if "parseMultiplication_trace n p = Some (e, p', tr)"
    using assms that by (rule parsers_increments(3))
  show "increments p tr p'" if "parseParenthesis_trace n p = Some (e, p', tr)"
    using assms that by (rule parsers_increments(5))
  show "increments p tr p'" if "parseNumber_trace p = (e, p', tr)"
    using assms that by (rule parseNumber_increments)
  show "increments p tr p'" if "parseAddition_loop_trace n p x = Some (e, p', tr)"
    using assms that by (rule parsers_increments(2))
  show "increments p tr p'" if "parseMultiplication_loop_trace n p x = Some (e, p', tr)"
    using assms that by (rule parsers_increments(4))
  show "tr = [Suc (index p)..<Suc (index p')]" if "increments p tr p'"
    using that by (simp add: increments_def del: upt_Suc)
  show "sorted (index p # tr)" if "increments p tr p'"
    using assms that by (rule increments_monotone(1))
  show "\<forall>i \<in> set (index p # tr). i \<le> length (tokens p)" if "increments p tr p'"
    using assms that by (rule increments_monotone(2))
  show "last (index p # tr) = index p'" if "increments p tr p'"
    using assms that by (rule increments_monotone(3))
qed

theorem cursor_invariant_witness:
  "wf_parser (new_parser ''(1+2)*3'') \<and>
   parseAddition_trace 24 (new_parser ''(1+2)*3'') =
     Some (Node (CHR ''*'') 0 (Node (CHR ''+'') 0 (Node (CHR ''n'') 1 NULL NULL) (Node (CHR ''n'') 2 NULL NULL)) (Node (CHR ''n'') 3 NULL NULL), \<lparr>tokens = ''(1+2)*3'', numTokens = 7, index = 7\<rparr>, [1, 2, 3, 4, 5, 6, 7]) \<and>
   parseAddition 24 (new_parser ''(1+2)*3'') = Some (Node (CHR ''*'') 0 (Node (CHR ''+'') 0 (Node (CHR ''n'') 1 NULL NULL) (Node (CHR ''n'') 2 NULL NULL)) (Node (CHR ''n'') 3 NULL NULL), \<lparr>tokens = ''(1+2)*3'', numTokens = 7, index = 7\<rparr>) \<and>
   increments (new_parser ''(1+2)*3'') [1, 2, 3, 4, 5, 6, 7] \<lparr>tokens = ''(1+2)*3'', numTokens = 7, index = 7\<rparr> \<and>
   cursor_le (new_parser ''(1+2)*3'') \<lparr>tokens = ''(1+2)*3'', numTokens = 7, index = 7\<rparr> \<and>
   sorted (index (new_parser ''(1+2)*3'') # [1, 2, 3, 4, 5, 6, 7]) \<and>
   parseParenthesis_trace 24 (new_parser ''(1+2)*3'') = Some (Node (CHR ''+'') 0 (Node (CHR ''n'') 1 NULL NULL) (Node (CHR ''n'') 2 NULL NULL), \<lparr>tokens = ''(1+2)*3'', numTokens = 7, index = 5\<rparr>, [1, 2, 3, 4, 5]) \<and>
   increments (new_parser ''(1+2)*3'') [1, 2, 3, 4, 5] \<lparr>tokens = ''(1+2)*3'', numTokens = 7, index = 5\<rparr> \<and>
   wf_parser \<lparr>tokens = ''(1+2)*3'', numTokens = 7, index = 2\<rparr> \<and>
   parseAddition_loop_trace 9 \<lparr>tokens = ''(1+2)*3'', numTokens = 7, index = 2\<rparr> (Node (CHR ''n'') 1 NULL NULL) = Some (Node (CHR ''+'') 0 (Node (CHR ''n'') 1 NULL NULL) (Node (CHR ''n'') 2 NULL NULL), \<lparr>tokens = ''(1+2)*3'', numTokens = 7, index = 4\<rparr>, [3, 4]) \<and>
   increments \<lparr>tokens = ''(1+2)*3'', numTokens = 7, index = 2\<rparr> [3, 4] \<lparr>tokens = ''(1+2)*3'', numTokens = 7, index = 4\<rparr> \<and>
   wf_parser \<lparr>tokens = ''(1+2)*3'', numTokens = 7, index = 5\<rparr> \<and>
   parseMultiplication_loop_trace 9 \<lparr>tokens = ''(1+2)*3'', numTokens = 7, index = 5\<rparr> (Node (CHR ''+'') 0 (Node (CHR ''n'') 1 NULL NULL) (Node (CHR ''n'') 2 NULL NULL)) = Some (Node (CHR ''*'') 0 (Node (CHR ''+'') 0 (Node (CHR ''n'') 1 NULL NULL) (Node (CHR ''n'') 2 NULL NULL)) (Node (CHR ''n'') 3 NULL NULL), \<lparr>tokens = ''(1+2)*3'', numTokens = 7, index = 7\<rparr>, [6, 7]) \<and>
   increments \<lparr>tokens = ''(1+2)*3'', numTokens = 7, index = 5\<rparr> [6, 7] \<lparr>tokens = ''(1+2)*3'', numTokens = 7, index = 7\<rparr> \<and>
   wf_parser \<lparr>tokens = ''(1+2)*3'', numTokens = 7, index = 1\<rparr> \<and>
   parseNumber_trace \<lparr>tokens = ''(1+2)*3'', numTokens = 7, index = 1\<rparr> = (Node (CHR ''n'') 1 NULL NULL, \<lparr>tokens = ''(1+2)*3'', numTokens = 7, index = 2\<rparr>, [2]) \<and>
   increments \<lparr>tokens = ''(1+2)*3'', numTokens = 7, index = 1\<rparr> [2] \<lparr>tokens = ''(1+2)*3'', numTokens = 7, index = 2\<rparr>"
proof -
  have w0: "wf_parser (new_parser ''(1+2)*3'')" by (rule wf_new_parser)
  have w1: "wf_parser \<lparr>tokens = ''(1+2)*3'', numTokens = 7, index = 1\<rparr>" by (simp add: wf_parser_def)
  have w2: "wf_parser \<lparr>tokens = ''(1+2)*3'', numTokens = 7, index = 2\<rparr>" by (simp add: wf_parser_def)
  have w5: "wf_parser \<lparr>tokens = ''(1+2)*3'', numTokens = 7, index = 5\<rparr>" by (simp add: wf_parser_def)
  have a: "parseAddition_trace 24 (new_parser ''(1+2)*3'') =
     Some (Node (CHR ''*'') 0 (Node (CHR ''+'') 0 (Node (CHR ''n'') 1 NULL NULL) (Node (CHR ''n'') 2 NULL NULL)) (Node (CHR ''n'') 3 NULL NULL), \<lparr>tokens = ''(1+2)*3'', numTokens = 7, index = 7\<rparr>, [1, 2, 3, 4, 5, 6, 7])"
    by code_simp
  have b: "parseAddition 24 (new_parser ''(1+2)*3'') = Some (Node (CHR ''*'') 0 (Node (CHR ''+'') 0 (Node (CHR ''n'') 1 NULL NULL) (Node (CHR ''n'') 2 NULL NULL)) (Node (CHR ''n'') 3 NULL NULL), \<lparr>tokens = ''(1+2)*3'', numTokens = 7, index = 7\<rparr>)"
    by code_simp
  have q: "parseParenthesis_trace 24 (new_parser ''(1+2)*3'') = Some (Node (CHR ''+'') 0 (Node (CHR ''n'') 1 NULL NULL) (Node (CHR ''n'') 2 NULL NULL), \<lparr>tokens = ''(1+2)*3'', numTokens = 7, index = 5\<rparr>, [1, 2, 3, 4, 5])"
    by code_simp
  have l: "parseAddition_loop_trace 9 \<lparr>tokens = ''(1+2)*3'', numTokens = 7, index = 2\<rparr> (Node (CHR ''n'') 1 NULL NULL) = Some (Node (CHR ''+'') 0 (Node (CHR ''n'') 1 NULL NULL) (Node (CHR ''n'') 2 NULL NULL), \<lparr>tokens = ''(1+2)*3'', numTokens = 7, index = 4\<rparr>, [3, 4])"
    by code_simp
  have m: "parseMultiplication_loop_trace 9 \<lparr>tokens = ''(1+2)*3'', numTokens = 7, index = 5\<rparr> (Node (CHR ''+'') 0 (Node (CHR ''n'') 1 NULL NULL) (Node (CHR ''n'') 2 NULL NULL)) = Some (Node (CHR ''*'') 0 (Node (CHR ''+'') 0 (Node (CHR ''n'') 1 NULL NULL) (Node (CHR ''n'') 2 NULL NULL)) (Node (CHR ''n'') 3 NULL NULL), \<lparr>tokens = ''(1+2)*3'', numTokens = 7, index = 7\<rparr>, [6, 7])"
    by code_simp
  have k: "parseNumber_trace \<lparr>tokens = ''(1+2)*3'', numTokens = 7, index = 1\<rparr> = (Node (CHR ''n'') 1 NULL NULL, \<lparr>tokens = ''(1+2)*3'', numTokens = 7, index = 2\<rparr>, [2])"
    by code_simp
  show ?thesis
    using w0 w1 w2 w5 a b q l m k
      cursor_invariant [OF w0, where n = 24
        and e = "Node (CHR ''*'') 0 (Node (CHR ''+'') 0 (Node (CHR ''n'') 1 NULL NULL) (Node (CHR ''n'') 2 NULL NULL)) (Node (CHR ''n'') 3 NULL NULL)"
        and p' = "\<lparr>tokens = ''(1+2)*3'', numTokens = 7, index = 7\<rparr>"
        and tr = "[1, 2, 3, 4, 5, 6, 7]"]
      cursor_invariant [OF w0, where n = 24
        and e = "Node (CHR ''+'') 0 (Node (CHR ''n'') 1 NULL NULL) (Node (CHR ''n'') 2 NULL NULL)"
        and p' = "\<lparr>tokens = ''(1+2)*3'', numTokens = 7, index = 5\<rparr>"
        and tr = "[1, 2, 3, 4, 5]"]
      cursor_invariant [OF w2, where n = 9
        and x = "Node (CHR ''n'') 1 NULL NULL"
        and e = "Node (CHR ''+'') 0 (Node (CHR ''n'') 1 NULL NULL) (Node (CHR ''n'') 2 NULL NULL)"
        and p' = "\<lparr>tokens = ''(1+2)*3'', numTokens = 7, index = 4\<rparr>"
        and tr = "[3, 4]"]
      cursor_invariant [OF w5, where n = 9
        and x = "Node (CHR ''+'') 0 (Node (CHR ''n'') 1 NULL NULL) (Node (CHR ''n'') 2 NULL NULL)"
        and e = "Node (CHR ''*'') 0 (Node (CHR ''+'') 0 (Node (CHR ''n'') 1 NULL NULL) (Node (CHR ''n'') 2 NULL NULL)) (Node (CHR ''n'') 3 NULL NULL)"
        and p' = "\<lparr>tokens = ''(1+2)*3'', numTokens = 7, index = 7\<rparr>"
        and tr = "[6, 7]"]
      cursor_invariant [OF w1, where e = "Node (CHR ''n'') 1 NULL NULL"
        and p' = "\<lparr>tokens = ''(1+2)*3'', numTokens = 7, index = 2\<rparr>"
        and tr = "[2]"]
    by simp
qed

text \<open>
  C7. For every token stream, parsing terminates: with the call-depth bound
  \<open>3 * length + 3\<close> the mutually recursive sub-parsers return a tree and a cursor, and
  every larger bound gives the same tree and cursor, so the result does not depend on
  the bound. The tree is well formed, and its evaluation, a structural recursion over
  the tree, ends with a value or with the division-by-zero failure.
\<close>

theorem parse_terminates:
  "\<exists>e p'. parseAddition (3 * length toks + 3) (new_parser toks) = Some (e, p') \<and>
     (\<forall>k. parseAddition (3 * length toks + 3 + k) (new_parser toks) = Some (e, p')) \<and>
     parse toks = Some e \<and> wf_tree e \<and>
     ((\<exists>v. calculate e = Inr v) \<or> calculate e = Inl (Undefined DivisionByZero))"
proof -
  from parse_new_parser obtain e p' where
    r: "parseAddition (3 * length toks + 3) (new_parser toks) = Some (e, p')"
    by blast
  have "\<forall>k. parseAddition (3 * length toks + 3 + k) (new_parser toks) = Some (e, p')"
    using parsers_fuel(1) [OF r] by simp
  moreover have "parse toks = Some e" using r by (simp add: parse_def)
  moreover have w: "wf_tree e" using r by (rule parsers_wf_tree(1))
  moreover have "(\<exists>v. calculate e = Inr v) \<or> calculate e = Inl (Undefined DivisionByZero)"
    using w by (rule calculate_wf_cases)
  ultimately show ?thesis using r by blast
qed

text \<open>
  C8. An opening parenthesis without a closing one is tolerated: at a cursor on \<open>(\<close>
  the parenthesis sub-parser consumes it, parses a full addition expression into a
  well-formed tree, and then consumes a \<open>)\<close> only if one is at the cursor; otherwise
  it returns the cursor as the addition left it. In that case the enclosing
  multiplication and addition return that same tree and cursor, so a stream that opens
  with an unmatched \<open>(\<close> parses to the tree of what follows it. On every token stream
  \<open>parse\<close> returns a well-formed tree.
\<close>

theorem unmatched_parenthesis_tolerated:
  assumes "wf_parser p" and "tok p = CHR ''(''" and "3 * remaining p + 1 \<le> n"
  shows "(\<exists>e p'. parseAddition (n - 1) (advance p) = Some (e, p') \<and> wf_tree e \<and>
            cursor_le (advance p) p' \<and>
            parseParenthesis n p =
              Some (e, if tok p' = CHR '')'' then advance p' else p') \<and>
            (tok p' \<noteq> CHR '')'' \<longrightarrow>
               parseMultiplication (Suc n) p = Some (e, p') \<and>
               parseAddition (Suc (Suc n)) p = Some (e, p') \<and>
               (p = new_parser toks \<and> n = 3 * length toks + 1 \<longrightarrow> parse toks = Some e))) \<and>
         (\<exists>t. parse toks = Some t \<and> wf_tree t)"
proof
  from assms(3) obtain m where n: "n = Suc m" by (cases n) simp_all
  have lt: "index p < numTokens p"
    using assms(1,2) by (intro tok_not_NUL_less) (simp_all add: NUL_simps)
  have "cursor_le p (advance p)" using lt assms(1) by (simp add: cursor_le_advance)
  then have w0: "wf_parser (advance p)" using assms(1) by (rule cursor_le_wf [rotated])
  have "remaining p = Suc (remaining (advance p))" using lt by (rule remaining_advance)
  then have "3 * remaining (advance p) + 3 \<le> m" using assms(3) n by simp
  with w0 obtain r where "parseAddition m (advance p) = Some r"
    using parsers_total(1) by blast
  then obtain e p' where a: "parseAddition m (advance p) = Some (e, p')" by (cases r) simp
  have q: "parseParenthesis n p = Some (e, if tok p' = CHR '')'' then advance p' else p')"
    using a assms(2) n by simp
  have stop: "\<not> at_multiplicative p' \<and> \<not> at_additive p'" using a by (rule parseAddition_stops)
  have un: "parseMultiplication (Suc n) p = Some (e, p') \<and>
      parseAddition (Suc (Suc n)) p = Some (e, p')" if "tok p' \<noteq> CHR '')''"
  proof -
    have "parseMultiplication_loop n p' e = Some (e, p')"
      using stop n by (auto simp: at_multiplicative_def)
    then have m: "parseMultiplication (Suc n) p = Some (e, p')" using q that by simp
    have "parseAddition_loop (Suc n) p' e = Some (e, p')"
      using stop by (auto simp: at_additive_def)
    then show ?thesis using m by simp
  qed
  have top: "parse toks = Some e"
    if "tok p' \<noteq> CHR '')''" and "p = new_parser toks \<and> n = 3 * length toks + 1"
  proof -
    have "Suc (Suc n) = 3 * length toks + 3" using that(2) by simp
    then have "parseAddition (3 * length toks + 3) (new_parser toks) = Some (e, p')"
      using un [OF that(1)] that(2) by metis
    then show ?thesis by (simp only: parse_def option.map fst_conv)
  qed
  have "wf_tree e" using a by (rule parsers_wf_tree(1))
  moreover have "cursor_le (advance p) p'" using w0 a by (rule parsers_cursor(1))
  moreover have "parseAddition (n - 1) (advance p) = Some (e, p')" using a n by simp
  ultimately show "\<exists>e p'. parseAddition (n - 1) (advance p) = Some (e, p') \<and> wf_tree e \<and>
      cursor_le (advance p) p' \<and>
      parseParenthesis n p = Some (e, if tok p' = CHR '')'' then advance p' else p') \<and>
      (tok p' \<noteq> CHR '')'' \<longrightarrow>
         parseMultiplication (Suc n) p = Some (e, p') \<and>
         parseAddition (Suc (Suc n)) p = Some (e, p') \<and>
         (p = new_parser toks \<and> n = 3 * length toks + 1 \<longrightarrow> parse toks = Some e))"
    using q un top by blast
next
  from parse_new_parser obtain e p' where
    r: "parseAddition (3 * length toks + 3) (new_parser toks) = Some (e, p')"
    by blast
  then have "wf_tree e" by (rule parsers_wf_tree(1))
  then show "\<exists>t. parse toks = Some t \<and> wf_tree t"
    using r by (simp only: parse_def option.map fst_conv) blast
qed

theorem unmatched_parenthesis_tolerated_witness:
  "wf_parser (new_parser ''(1+2'') \<and> tok (new_parser ''(1+2'') = CHR ''('' \<and>
   3 * remaining (new_parser ''(1+2'') + 1 \<le> 13 \<and>
   parseAddition 12 (advance (new_parser ''(1+2'')) = Some (Node (CHR ''+'') 0 (Node (CHR ''n'') 1 NULL NULL) (Node (CHR ''n'') 2 NULL NULL), \<lparr>tokens = ''(1+2'', numTokens = 4, index = 4\<rparr>) \<and>
   tok (\<lparr>tokens = ''(1+2'', numTokens = 4, index = 4\<rparr>) \<noteq> CHR '')'' \<and>
   parseParenthesis 13 (new_parser ''(1+2'') = Some (Node (CHR ''+'') 0 (Node (CHR ''n'') 1 NULL NULL) (Node (CHR ''n'') 2 NULL NULL), \<lparr>tokens = ''(1+2'', numTokens = 4, index = 4\<rparr>) \<and>
   parseAddition 15 (new_parser ''(1+2'') = Some (Node (CHR ''+'') 0 (Node (CHR ''n'') 1 NULL NULL) (Node (CHR ''n'') 2 NULL NULL), \<lparr>tokens = ''(1+2'', numTokens = 4, index = 4\<rparr>) \<and>
   parse ''(1+2'' = Some (Node (CHR ''+'') 0 (Node (CHR ''n'') 1 NULL NULL) (Node (CHR ''n'') 2 NULL NULL)) \<and> wf_tree (Node (CHR ''+'') 0 (Node (CHR ''n'') 1 NULL NULL) (Node (CHR ''n'') 2 NULL NULL))"
proof -
  have w: "wf_parser (new_parser ''(1+2'')" by (rule wf_new_parser)
  have t: "tok (new_parser ''(1+2'') = CHR ''(''" by code_simp
  have b: "3 * remaining (new_parser ''(1+2'') + 1 \<le> 13"
    by (simp add: remaining_new_parser)
  have a: "parseAddition 12 (advance (new_parser ''(1+2'')) = Some (Node (CHR ''+'') 0 (Node (CHR ''n'') 1 NULL NULL) (Node (CHR ''n'') 2 NULL NULL), \<lparr>tokens = ''(1+2'', numTokens = 4, index = 4\<rparr>)"
    by code_simp
  have c: "tok (\<lparr>tokens = ''(1+2'', numTokens = 4, index = 4\<rparr>) \<noteq> CHR '')''" by code_simp
  from unmatched_parenthesis_tolerated [OF w t b, of "''(1+2''"] obtain e p' where
    r: "parseAddition (13 - 1) (advance (new_parser ''(1+2'')) = Some (e, p')"
      "wf_tree e"
      "parseParenthesis 13 (new_parser ''(1+2'') =
         Some (e, if tok p' = CHR '')'' then advance p' else p')"
      "tok p' \<noteq> CHR '')'' \<longrightarrow>
         parseMultiplication (Suc 13) (new_parser ''(1+2'') = Some (e, p') \<and>
         parseAddition (Suc (Suc 13)) (new_parser ''(1+2'') = Some (e, p') \<and>
         (new_parser ''(1+2'' = new_parser ''(1+2'' \<and> 13 = 3 * length ''(1+2'' + 1 \<longrightarrow>
            parse ''(1+2'' = Some e)"
    by blast
  from r(1) a have e: "e = Node (CHR ''+'') 0 (Node (CHR ''n'') 1 NULL NULL) (Node (CHR ''n'') 2 NULL NULL)" and p': "p' = \<lparr>tokens = ''(1+2'', numTokens = 4, index = 4\<rparr>"
    by simp_all
  show ?thesis
    using w t b a c r(2,3,4) unfolding e p' by simp
qed

text \<open>
  C10. Where no digit can be consumed (the cursor is at the end of the stream, or on a
  token that is not a digit) \<open>parseNumber\<close> does not fail: the empty digit run is
  converted to 0 and a number node with value 0 is returned, with the cursor unmoved.
  So parsing the empty token stream succeeds and the result evaluates to 0.
\<close>

theorem parseNumber_no_digits:
  "(wf_parser p \<and> NUL \<notin> set (tokens p) \<and>
    (index p = numTokens p \<or> tok p \<notin> set ''0123456789'') \<longrightarrow>
      parseNumber p = (Node (CHR ''n'') 0 NULL NULL, p)) \<and>
   parse [] = Some (Node (CHR ''n'') 0 NULL NULL) \<and>
   calculate (Node (CHR ''n'') 0 NULL NULL) = Inr 0 \<and>
   main_line '' '' = Some (Inr 0)"
proof (intro conjI impI)
  assume a: "wf_parser p \<and> NUL \<notin> set (tokens p) \<and>
    (index p = numTokens p \<or> tok p \<notin> set ''0123456789'')"
  have "\<not> (strchr ''0123456789'' (tok p) \<and> length ([]::string) < MSG_SIZE
      \<and> index p < numTokens p)"
  proof
    assume c: "strchr ''0123456789'' (tok p) \<and> length ([]::string) < MSG_SIZE
      \<and> index p < numTokens p"
    then have lt: "index p < length (tokens p)" using a by (simp add: wf_parser_def)
    then have "tok p \<in> set (tokens p)" by (simp add: tok_def)
    then have "tok p \<noteq> NUL" using a by auto
    then have "tok p \<in> set ''0123456789''" using c by (simp add: strchr_def)
    then show False using a c by auto
  qed
  then have "parseNumber_loop p [] = (p, [])" by (rule parseNumber_loop_stop)
  then show "parseNumber p = (Node (CHR ''n'') 0 NULL NULL, p)"
    by (simp add: parseNumber_def createExpressionTree_def atoi_def)
next
  show "parse [] = Some (Node (CHR ''n'') 0 NULL NULL)" by code_simp
  show "calculate (Node (CHR ''n'') 0 NULL NULL) = Inr 0" by simp
  show "main_line '' '' = Some (Inr 0)" by code_simp
qed

theorem parseNumber_no_digits_witness:
  "wf_parser \<lparr>tokens = ''1+-2'', numTokens = 4, index = 2\<rparr> \<and>
   NUL \<notin> set ''1+-2'' \<and>
   tok \<lparr>tokens = ''1+-2'', numTokens = 4, index = 2\<rparr> \<notin> set ''0123456789'' \<and>
   parseNumber \<lparr>tokens = ''1+-2'', numTokens = 4, index = 2\<rparr> =
     (Node (CHR ''n'') 0 NULL NULL, \<lparr>tokens = ''1+-2'', numTokens = 4, index = 2\<rparr>)"
  using parseNumber_no_digits [of "\<lparr>tokens = ''1+-2'', numTokens = 4, index = 2\<rparr>"]
  by (simp add: wf_parser_def NUL_def tok_def)

text \<open>
  C4. Multiplication binds tighter than addition: the line \<open>2 + 6 * 6 =\<close> is tokenized
  to \<open>2+6*6\<close>, parsed into an addition whose right operand is the multiplication,
  and evaluated to 38. In general: every sum of products written without parentheses,
  \<open>P\<^sub>0 op\<^sub>1 P\<^sub>1 ... op\<^sub>k P\<^sub>k\<close> with \<open>+\<close> and \<open>-\<close> between products of numbers, is parsed
  into the chain of \<open>+\<close> and \<open>-\<close> nodes whose operands are the trees of the products;
  and on a token stream without parentheses no tree that \<open>parseMultiplication\<close>
  returns holds a \<open>+\<close> or \<open>-\<close> node, so \<open>*\<close> and \<open>/\<close> always group below them.
\<close>

theorem multiplication_binds_tighter:
  "tokenize ''2 + 6 * 6 ='' = Inr ''2+6*6'' \<and>
   parse ''2+6*6'' =
     Some (Node (CHR ''+'') 0 (Node (CHR ''n'') 2 NULL NULL)
            (Node (CHR ''*'') 0 (Node (CHR ''n'') 6 NULL NULL) (Node (CHR ''n'') 6 NULL NULL))) \<and>
   main_line ''2 + 6 * 6 ='' = Some (Inr 38) \<and>
   (is_product d ods \<and>
    (\<forall>(op, d', ods') \<in> set ts. (op = CHR ''+'' \<or> op = CHR ''-'') \<and> is_product d' ods') \<longrightarrow>
      parse (d @ render_ops ods @ render_terms ts) =
        Some (fold_terms (tree_product d ods)
                (map (\<lambda>(op, d', ods'). (op, tree_product d' ods')) ts))) \<and>
   (wf_parser p \<and> CHR ''('' \<notin> set (tokens p) \<and> parseMultiplication n p = Some (t, p') \<longrightarrow>
      no_additive t)"
proof (intro conjI impI)
  show "tokenize ''2 + 6 * 6 ='' = Inr ''2+6*6''" by code_simp
  show "parse ''2+6*6'' =
     Some (Node (CHR ''+'') 0 (Node (CHR ''n'') 2 NULL NULL)
            (Node (CHR ''*'') 0 (Node (CHR ''n'') 6 NULL NULL) (Node (CHR ''n'') 6 NULL NULL)))"
    by code_simp
  show "main_line ''2 + 6 * 6 ='' = Some (Inr 38)" by code_simp
next
  assume "is_product d ods \<and>
    (\<forall>(op, d', ods') \<in> set ts. (op = CHR ''+'' \<or> op = CHR ''-'') \<and> is_product d' ods')"
  then show "parse (d @ render_ops ods @ render_terms ts) =
      Some (fold_terms (tree_product d ods)
              (map (\<lambda>(op, d', ods'). (op, tree_product d' ods')) ts))"
    by (intro parse_sum_of_products) simp_all
next
  assume "wf_parser p \<and> CHR ''('' \<notin> set (tokens p) \<and> parseMultiplication n p = Some (t, p')"
  then show "no_additive t" by (blast intro: parseMultiplication_no_additive)
qed

theorem multiplication_binds_tighter_witness:
  "is_product ''2'' [] \<and> is_product ''6'' [(CHR ''*'', ''6'')] \<and>
   ''2'' @ render_ops [] @ render_terms [(CHR ''+'', ''6'', [(CHR ''*'', ''6'')])] = ''2+6*6'' \<and>
   parse ''2+6*6'' =
     Some (fold_terms (tree_product ''2'' [])
             [(CHR ''+'', tree_product ''6'' [(CHR ''*'', ''6'')])]) \<and>
   fold_terms (tree_product ''2'' []) [(CHR ''+'', tree_product ''6'' [(CHR ''*'', ''6'')])] =
     Node (CHR ''+'') 0 (Node (CHR ''n'') 2 NULL NULL)
       (Node (CHR ''*'') 0 (Node (CHR ''n'') 6 NULL NULL) (Node (CHR ''n'') 6 NULL NULL)) \<and>
   wf_parser \<lparr>tokens = ''2+6*6'', numTokens = 5, index = 2\<rparr> \<and>
   CHR ''('' \<notin> set ''2+6*6'' \<and>
   parseMultiplication 6 \<lparr>tokens = ''2+6*6'', numTokens = 5, index = 2\<rparr> =
     Some (Node (CHR ''*'') 0 (Node (CHR ''n'') 6 NULL NULL) (Node (CHR ''n'') 6 NULL NULL),
           \<lparr>tokens = ''2+6*6'', numTokens = 5, index = 5\<rparr>) \<and>
   no_additive (Node (CHR ''*'') 0 (Node (CHR ''n'') 6 NULL NULL) (Node (CHR ''n'') 6 NULL NULL))"
proof -
  have p2: "is_product ''2'' []" by code_simp
  have p6: "is_product ''6'' [(CHR ''*'', ''6'')]" by code_simp
  have r: "''2'' @ render_ops [] @ render_terms [(CHR ''+'', ''6'', [(CHR ''*'', ''6'')])]
      = ''2+6*6''"
    by simp
  have f: "fold_terms (tree_product ''2'' [])
        [(CHR ''+'', tree_product ''6'' [(CHR ''*'', ''6'')])] =
     Node (CHR ''+'') 0 (Node (CHR ''n'') 2 NULL NULL)
       (Node (CHR ''*'') 0 (Node (CHR ''n'') 6 NULL NULL) (Node (CHR ''n'') 6 NULL NULL))"
    by code_simp
  have w: "wf_parser \<lparr>tokens = ''2+6*6'', numTokens = 5, index = 2\<rparr>"
    by (simp add: wf_parser_def)
  have m: "parseMultiplication 6 \<lparr>tokens = ''2+6*6'', numTokens = 5, index = 2\<rparr> =
     Some (Node (CHR ''*'') 0 (Node (CHR ''n'') 6 NULL NULL) (Node (CHR ''n'') 6 NULL NULL),
           \<lparr>tokens = ''2+6*6'', numTokens = 5, index = 5\<rparr>)"
    by code_simp
  show ?thesis
    using p2 p6 r f w m
      multiplication_binds_tighter
        [where d = "''2''" and ods = "[]" and ts = "[(CHR ''+'', ''6'', [(CHR ''*'', ''6'')])]"
          and p = "\<lparr>tokens = ''2+6*6'', numTokens = 5, index = 2\<rparr>" and n = 6
          and t = "Node (CHR ''*'') 0 (Node (CHR ''n'') 6 NULL NULL) (Node (CHR ''n'') 6 NULL NULL)"
          and p' = "\<lparr>tokens = ''2+6*6'', numTokens = 5, index = 5\<rparr>"]
    by simp
qed

text \<open>
  C5. Operators of the same precedence are left-associative: \<open>1-2-3\<close> parses as
  \<open>(1-2)-3\<close> and evaluates to -4. In general: every chain of numbers
  \<open>d op\<^sub>1 d\<^sub>1 ... op\<^sub>k d\<^sub>k\<close> whose operators are all \<open>+\<close> or \<open>-\<close>, or all \<open>*\<close> or
  \<open>/\<close>, is parsed into the left-associative tree \<open>(...((d op\<^sub>1 d\<^sub>1) op\<^sub>2 d\<^sub>2)...) op\<^sub>k d\<^sub>k\<close>.
  And the addition loop, entered with the result so far at a cursor in front of
  \<open>op\<^sub>1 P\<^sub>1 ... op\<^sub>k P\<^sub>k\<close>, folds each product it parses into an operator node whose
  left child is the result so far, and stops behind the last product.
\<close>

theorem same_precedence_left_associative:
  "parse ''1-2-3'' =
     Some (Node (CHR ''-'') 0
            (Node (CHR ''-'') 0 (Node (CHR ''n'') 1 NULL NULL) (Node (CHR ''n'') 2 NULL NULL))
            (Node (CHR ''n'') 3 NULL NULL)) \<and>
   main_line ''1-2-3'' = Some (Inr (- 4)) \<and>
   (is_number d \<and> (\<forall>(op, d') \<in> set ods. is_number d') \<and>
    ((\<forall>(op, d') \<in> set ods. op = CHR ''+'' \<or> op = CHR ''-'') \<or>
     (\<forall>(op, d') \<in> set ods. op = CHR ''*'' \<or> op = CHR ''/'')) \<longrightarrow>
      parse (d @ render_ops ods) =
        Some (fold_terms (number_node d) (map (\<lambda>(op, d'). (op, number_node d')) ods))) \<and>
   ((\<forall>(op, d', ods') \<in> set ts. (op = CHR ''+'' \<or> op = CHR ''-'') \<and> is_product d' ods') \<and>
    ends_sum post \<and> length (render_terms ts) < n \<longrightarrow>
      parseAddition_loop n (at_cursor pre (render_terms ts @ post)) expression =
        Some (fold_terms expression (map (\<lambda>(op, d', ods'). (op, tree_product d' ods')) ts),
              at_cursor (pre @ render_terms ts) post))"
proof (intro conjI impI)
  show "parse ''1-2-3'' =
     Some (Node (CHR ''-'') 0
            (Node (CHR ''-'') 0 (Node (CHR ''n'') 1 NULL NULL) (Node (CHR ''n'') 2 NULL NULL))
            (Node (CHR ''n'') 3 NULL NULL))"
    by code_simp
  show "main_line ''1-2-3'' = Some (Inr (- 4))" by code_simp
next
  assume "is_number d \<and> (\<forall>(op, d') \<in> set ods. is_number d') \<and>
    ((\<forall>(op, d') \<in> set ods. op = CHR ''+'' \<or> op = CHR ''-'') \<or>
     (\<forall>(op, d') \<in> set ods. op = CHR ''*'' \<or> op = CHR ''/''))"
  then show "parse (d @ render_ops ods) =
      Some (fold_terms (number_node d) (map (\<lambda>(op, d'). (op, number_node d')) ods))"
    by (intro parse_chain) simp_all
next
  assume "(\<forall>(op, d', ods') \<in> set ts. (op = CHR ''+'' \<or> op = CHR ''-'') \<and> is_product d' ods') \<and>
    ends_sum post \<and> length (render_terms ts) < n"
  then show "parseAddition_loop n (at_cursor pre (render_terms ts @ post)) expression =
      Some (fold_terms expression (map (\<lambda>(op, d', ods'). (op, tree_product d' ods')) ts),
            at_cursor (pre @ render_terms ts) post)"
    by (intro parseAddition_loop_chain) simp_all
qed

theorem same_precedence_left_associative_witness:
  "is_number ''1'' \<and> is_number ''2'' \<and> is_number ''3'' \<and>
   ''1'' @ render_ops [(CHR ''-'', ''2''), (CHR ''-'', ''3'')] = ''1-2-3'' \<and>
   parse ''1-2-3'' =
     Some (fold_terms (number_node ''1'')
             [(CHR ''-'', number_node ''2''), (CHR ''-'', number_node ''3'')]) \<and>
   fold_terms (number_node ''1'')
       [(CHR ''-'', number_node ''2''), (CHR ''-'', number_node ''3'')] =
     Node (CHR ''-'') 0
       (Node (CHR ''-'') 0 (Node (CHR ''n'') 1 NULL NULL) (Node (CHR ''n'') 2 NULL NULL))
       (Node (CHR ''n'') 3 NULL NULL) \<and>
   is_number ''8'' \<and> is_number ''4'' \<and>
   ''8'' @ render_ops [(CHR ''/'', ''4''), (CHR ''*'', ''2'')] = ''8/4*2'' \<and>
   parse ''8/4*2'' =
     Some (fold_terms (number_node ''8'')
             [(CHR ''/'', number_node ''4''), (CHR ''*'', number_node ''2'')]) \<and>
   fold_terms (number_node ''8'')
       [(CHR ''/'', number_node ''4''), (CHR ''*'', number_node ''2'')] =
     Node (CHR ''*'') 0
       (Node (CHR ''/'') 0 (Node (CHR ''n'') 8 NULL NULL) (Node (CHR ''n'') 4 NULL NULL))
       (Node (CHR ''n'') 2 NULL NULL) \<and>
   is_product ''2'' [] \<and> is_product ''3'' [] \<and> ends_sum [] \<and>
   parseAddition_loop 9
       (at_cursor ''1'' (render_terms [(CHR ''-'', ''2'', []), (CHR ''-'', ''3'', [])] @ []))
       (number_node ''1'') =
     Some (fold_terms (number_node ''1'')
             [(CHR ''-'', tree_product ''2'' []), (CHR ''-'', tree_product ''3'' [])],
           at_cursor (''1'' @ render_terms [(CHR ''-'', ''2'', []), (CHR ''-'', ''3'', [])]) [])"
proof -
  have n1: "is_number ''1''" and n2: "is_number ''2''" and n3: "is_number ''3''"
    and n8: "is_number ''8''" and n4: "is_number ''4''"
    by code_simp+
  have p2: "is_product ''2'' []" and p3: "is_product ''3'' []" by code_simp+
  have f1: "fold_terms (number_node ''1'')
       [(CHR ''-'', number_node ''2''), (CHR ''-'', number_node ''3'')] =
     Node (CHR ''-'') 0
       (Node (CHR ''-'') 0 (Node (CHR ''n'') 1 NULL NULL) (Node (CHR ''n'') 2 NULL NULL))
       (Node (CHR ''n'') 3 NULL NULL)"
    by code_simp
  have f2: "fold_terms (number_node ''8'')
       [(CHR ''/'', number_node ''4''), (CHR ''*'', number_node ''2'')] =
     Node (CHR ''*'') 0
       (Node (CHR ''/'') 0 (Node (CHR ''n'') 8 NULL NULL) (Node (CHR ''n'') 4 NULL NULL))
       (Node (CHR ''n'') 2 NULL NULL)"
    by code_simp
  show ?thesis
    using n1 n2 n3 n8 n4 p2 p3 f1 f2 ends_sum_Nil
      same_precedence_left_associative
        [where d = "''1''" and ods = "[(CHR ''-'', ''2''), (CHR ''-'', ''3'')]"
          and ts = "[(CHR ''-'', ''2'', []), (CHR ''-'', ''3'', [])]" and post = "[]"
          and n = 9 and pre = "''1''" and expression = "number_node ''1''"]
      same_precedence_left_associative
        [where d = "''8''" and ods = "[(CHR ''/'', ''4''), (CHR ''*'', ''2'')]"
          and ts = "[]" and post = "[]" and n = 1]
    by simp
qed

end
